theory Spec2Isabelle
  imports Main "HOL-Library.Sublist"
begin

section \<open>Characters, text and regular expressions\<close>

text \<open>
  Python text is modelled as \<open>string\<close>: a list of code points below 256. The character
  classes are those of Python's \<open>re\<close> module for \<open>str\<close> patterns on that range:
  \<open>\s\<close> is \<open>str.isspace\<close>, \<open>\w\<close> is \<open>str.isalnum\<close> or the underscore, and the dot
  is every character but the line feed.
\<close>

definition backslash :: char where
  "backslash = CHR 0x5C"

definition apostrophe :: char where
  "apostrophe = CHR 0x27"

definition newline :: char where
  "newline = CHR 0x0A"

definition is_space :: "char \<Rightarrow> bool" where
  "is_space c = (let n = (of_char c :: nat) in
     (9 \<le> n \<and> n \<le> 13) \<or> (28 \<le> n \<and> n \<le> 32) \<or> n = 133 \<or> n = 160)"

definition is_word :: "char \<Rightarrow> bool" where
  "is_word c = (let n = (of_char c :: nat) in
     (48 \<le> n \<and> n \<le> 57) \<or> (65 \<le> n \<and> n \<le> 90) \<or> n = 95 \<or> (97 \<le> n \<and> n \<le> 122)
     \<or> n = 170 \<or> n = 178 \<or> n = 179 \<or> n = 181 \<or> n = 185 \<or> n = 186
     \<or> (188 \<le> n \<and> n \<le> 190) \<or> (192 \<le> n \<and> n \<le> 214) \<or> (216 \<le> n \<and> n \<le> 246)
     \<or> (248 \<le> n \<and> n \<le> 255))"

datatype rx =
    Never
  | Eps
  | Lit char
  | Space
  | Word
  | Dot
  | Seq rx rx
  | Alt rx rx
  | Star rx

fun nullable :: "rx \<Rightarrow> bool" where
  "nullable Never = False"
| "nullable Eps = True"
| "nullable (Lit a) = False"
| "nullable Space = False"
| "nullable Word = False"
| "nullable Dot = False"
| "nullable (Seq r s) = (nullable r \<and> nullable s)"
| "nullable (Alt r s) = (nullable r \<or> nullable s)"
| "nullable (Star r) = True"

fun deriv :: "char \<Rightarrow> rx \<Rightarrow> rx" where
  "deriv c Never = Never"
| "deriv c Eps = Never"
| "deriv c (Lit a) = (if c = a then Eps else Never)"
| "deriv c Space = (if is_space c then Eps else Never)"
| "deriv c Word = (if is_word c then Eps else Never)"
| "deriv c Dot = (if c = newline then Never else Eps)"
| "deriv c (Seq r s) =
     (if nullable r then Alt (Seq (deriv c r) s) (deriv c s) else Seq (deriv c r) s)"
| "deriv c (Alt r s) = Alt (deriv c r) (deriv c s)"
| "deriv c (Star r) = Seq (deriv c r) (Star r)"

text \<open>\<open>re_match r s\<close>: some prefix of \<open>s\<close> matches \<open>r\<close> (a match anchored at the start).\<close>

fun re_match :: "rx \<Rightarrow> string \<Rightarrow> bool" where
  "re_match r [] = nullable r"
| "re_match r (c # cs) = (nullable r \<or> re_match (deriv c r) cs)"

text \<open>\<open>re_search r s\<close>: \<open>re.search\<close> finds a match, starting anywhere in \<open>s\<close>.\<close>

fun re_search :: "rx \<Rightarrow> string \<Rightarrow> bool" where
  "re_search r [] = nullable r"
| "re_search r (c # cs) = (re_match r (c # cs) \<or> re_search r cs)"

fun lits :: "string \<Rightarrow> rx" where
  "lits [] = Eps"
| "lits (c # cs) = Seq (Lit c) (lits cs)"

fun seqs :: "rx list \<Rightarrow> rx" where
  "seqs [] = Eps"
| "seqs (r # rs) = Seq r (seqs rs)"

definition rx_opt :: "rx \<Rightarrow> rx" where
  "rx_opt r = Alt r Eps"

definition rx_plus :: "rx \<Rightarrow> rx" where
  "rx_plus r = Seq r (Star r)"

text \<open>\<open>sub in text\<close> of Python: \<open>sub\<close> occurs in \<open>text\<close>.\<close>

definition contains :: "string \<Rightarrow> string \<Rightarrow> bool" where
  "contains sub text = re_search (lits sub) text"

section \<open>The validator (tools/validate.py)\<close>

text \<open>\<open>str(n)\<close> for an integer.\<close>

fun digits :: "nat \<Rightarrow> string" where
  "digits n = (if n < 10 then [''0123456789'' ! n]
               else digits (n div 10) @ [''0123456789'' ! (n mod 10)])"

definition str_int :: "int \<Rightarrow> string" where
  "str_int i = (if i < 0 then CHR ''-'' # digits (nat (- i)) else digits (nat i))"

text \<open>
  The brace loop of \<open>validate_latex\<close>: the counter after the loop, and whether the loop
  appended its error and left through \<open>break\<close>.
\<close>

fun brace_loop :: "int \<Rightarrow> string \<Rightarrow> int \<times> bool" where
  "brace_loop n [] = (n, False)"
| "brace_loop n (c # cs) =
     (let n' = (if c = CHR ''{'' then n + 1 else if c = CHR ''}'' then n - 1 else n)
      in if n' < 0 then (n', True) else brace_loop n' cs)"

definition brace_errors :: "string \<Rightarrow> string list" where
  "brace_errors content =
     (let (brace_count, broke) = brace_loop 0 content in
        (if broke then [''Unmatched closing brace }''] else []) @
        (if brace_count > 0 then [''Unmatched opening braces: '' @ str_int brace_count @ '' unclosed'']
         else if brace_count < 0 then [''Unmatched closing braces: '' @ str_int (abs brace_count) @ '' extra'']
         else []))"

text \<open>
  \<open>re.findall\<close> with the pattern \<open>\\KW\s*\{(\w+)\}\<close> (\<open>KW\<close> is \<open>begin\<close> or \<open>end\<close>).
  \<open>match_env kw s\<close> is the match anchored at the start of \<open>s\<close>: the captured name and the
  length of the match. Whitespace is never an opening brace and a word character never a
  closing one, so the greedy match is the only one. \<open>findall_env kw k s\<close> scans from left
  to right, the next \<open>k\<close> characters being inside the previous match.
\<close>

fun strip_prefix :: "string \<Rightarrow> string \<Rightarrow> string option" where
  "strip_prefix [] s = Some s"
| "strip_prefix (p # ps) [] = None"
| "strip_prefix (p # ps) (c # cs) = (if p = c then strip_prefix ps cs else None)"

definition match_env :: "string \<Rightarrow> string \<Rightarrow> (string \<times> nat) option" where
  "match_env kw s =
     (case strip_prefix (backslash # kw) s of
        None \<Rightarrow> None
      | Some r \<Rightarrow>
          (case dropWhile is_space r of
             [] \<Rightarrow> None
           | b # r2 \<Rightarrow>
               if b \<noteq> CHR ''{'' then None
               else (case dropWhile is_word r2 of
                       [] \<Rightarrow> None
                     | e # r3 \<Rightarrow>
                         if e \<noteq> CHR ''}'' \<or> takeWhile is_word r2 = [] then None
                         else Some (takeWhile is_word r2,
                                    Suc (length kw) + length (takeWhile is_space r) + 1
                                      + length (takeWhile is_word r2) + 1))))"

fun findall_env :: "string \<Rightarrow> nat \<Rightarrow> string \<Rightarrow> string list" where
  "findall_env kw k [] = []"
| "findall_env kw (Suc k) (c # cs) = findall_env kw k cs"
| "findall_env kw 0 (c # cs) =
     (case match_env kw (c # cs) of
        Some (nm, n) \<Rightarrow> nm # findall_env kw (n - 1) cs
      | None \<Rightarrow> findall_env kw 0 cs)"

text \<open>The pattern \<open>\\KW\s*\{ENV\}\<close> that \<open>validate_latex\<close> builds from a found name.\<close>

definition env_rx :: "string \<Rightarrow> string \<Rightarrow> rx" where
  "env_rx kw env = seqs [Lit backslash, lits kw, Star Space, Lit CHR ''{'', lits env, Lit CHR ''}'']"

definition documentclass_rx :: rx where
  "documentclass_rx =
     seqs [Lit backslash, lits ''documentclass'', Star Space,
           rx_opt (seqs [Lit CHR ''['', Star Dot, Lit CHR '']'']),
           Star Space, Lit CHR ''{'', Star Dot, Lit CHR ''}'']"

definition structure_errors :: "string \<Rightarrow> string list" where
  "structure_errors content =
     (if \<not> re_search documentclass_rx content
      then [''Missing '' @ [backslash] @ ''documentclass command''] else []) @
     (if \<not> re_search (env_rx ''begin'' ''document'') content
      then [''Missing '' @ [backslash] @ ''begin{document}''] else []) @
     (if \<not> re_search (env_rx ''end'' ''document'') content
      then [''Missing '' @ [backslash] @ ''end{document}''] else [])"

definition unclosed_errors :: "string \<Rightarrow> string list" where
  "unclosed_errors content =
     map (\<lambda>env. ''Unclosed environment: '' @ env)
       (filter (\<lambda>env. \<not> re_search (env_rx ''end'' env) content) (findall_env ''begin'' 0 content))"

definition unopened_errors :: "string \<Rightarrow> string list" where
  "unopened_errors content =
     map (\<lambda>env. ''Environment ended without begin: '' @ env)
       (filter (\<lambda>env. \<not> re_search (env_rx ''begin'' env) content) (findall_env ''end'' 0 content))"

text \<open>The table \<open>package_commands\<close>, in its insertion order.\<close>

definition package_commands :: "(string \<times> string) list" where
  "package_commands =
     [(''tikzpicture'', ''tikz''),
      (''includegraphics'', ''graphicx''),
      (''href'', ''hyperref''),
      (''url'', ''url or hyperref''),
      (''lstlisting'', ''listings''),
      (''algorithm'', ''algorithm''),
      (''align'', ''amsmath''),
      (''gather'', ''amsmath''),
      (''multirow'', ''multirow''),
      (''multicolumn'', ''array or tabularx'')]"

definition package_warnings :: "string \<Rightarrow> string list" where
  "package_warnings content =
     map (\<lambda>(command, package).
            ''Command/environment '' @ [apostrophe] @ command @ [apostrophe]
              @ '' used but package '' @ [apostrophe] @ package @ [apostrophe] @ '' not included'')
       (filter (\<lambda>(command, package).
            re_search (seqs [Lit backslash,
                             rx_opt (seqs [lits ''begin'', Star Space, Lit CHR ''{'']),
                             lits command]) content
            \<and> \<not> re_search (seqs [Lit backslash, lits ''usepackage'', Star Dot,
                                  Lit CHR ''{'', lits package]) content)
          package_commands)"

definition strict_warnings :: "string \<Rightarrow> string list" where
  "strict_warnings content =
     (if re_search (seqs [Lit backslash, lits ''title'', Star Space, Lit CHR ''{'']) content
         \<and> re_search (seqs [Lit backslash, lits ''author'', Star Space, Lit CHR ''{'']) content
         \<and> \<not> re_search (seqs [Lit backslash, lits ''maketitle'']) content
      then [''Title and author defined but '' @ [backslash] @ ''maketitle not called''] else []) @
     (if re_search (seqs [Lit newline, Lit newline, rx_plus (Lit newline)]) content
      then [''Multiple consecutive blank lines detected''] else []) @
     (if \<not> contains (backslash # ''section'') content
         \<and> \<not> contains (backslash # ''chapter'') content
         \<and> \<not> contains (backslash # ''subsection'') content
      then [''No section structure found in document''] else [])"

record validation_result =
  is_valid :: bool
  error_message_v :: "string option"
  errors :: "string list"
  warnings :: "string list"

text \<open>\<open>sep.join(xs)\<close>.\<close>

fun join :: "string \<Rightarrow> string list \<Rightarrow> string" where
  "join sep [] = []"
| "join sep [x] = x"
| "join sep (x # y # ys) = x @ sep @ join sep (y # ys)"

text \<open>
  The part of \<open>validate_latex\<close> after the file is read: the checks on \<open>content\<close>. The
  elapsed time of the result is a clock reading and is left out.
\<close>

definition validate_content :: "string \<Rightarrow> bool \<Rightarrow> bool \<Rightarrow> validation_result" where
  "validate_content content quick strict =
     (let errs = structure_errors content @ brace_errors content
                   @ unclosed_errors content @ unopened_errors content;
          warns = (if \<not> quick then package_warnings content else [])
                   @ (if strict then strict_warnings content else [])
      in \<lparr> is_valid = (length errs = 0),
           error_message_v = (if errs \<noteq> [] then Some (join ''; '' errs) else None),
           errors = errs,
           warnings = warns \<rparr>)"

text \<open>
  The file system as \<open>validate_latex\<close> sees it: a path does not exist, cannot be read
  (with the message of the exception), or holds a text.
\<close>

datatype file_state = Missing | Unreadable string | Text string

datatype validation_error = ValidationError string

definition validate_latex ::
  "(string \<Rightarrow> file_state) \<Rightarrow> string option \<Rightarrow> bool \<Rightarrow> bool \<Rightarrow> validation_error + validation_result" where
  "validate_latex disk file_path quick strict =
     (case file_path of
        None \<Rightarrow> Inl (ValidationError ''File path cannot be None'')
      | Some p \<Rightarrow>
          if p = [] then Inl (ValidationError ''File path cannot be empty'')
          else if quick \<and> strict
            then Inl (ValidationError ''Cannot use both quick and strict modes simultaneously'')
          else (case disk p of
                  Missing \<Rightarrow> Inl (ValidationError (''File not found: '' @ p))
                | Unreadable msg \<Rightarrow> Inl (ValidationError (''Failed to read file: '' @ msg))
                | Text content \<Rightarrow> Inr (validate_content content quick strict)))"

section \<open>Paths\<close>

text \<open>
  A \<open>pathlib.Path\<close> is modelled by its components (\<open>parts\<close>): the root, when the path is
  absolute, is the first component \<open>/\<close>; the empty list is the current directory. \<open>Path s\<close>
  parses a string as \<open>PurePosixPath\<close> does: it splits at slashes and drops empty and
  single-dot components. The result lists of the tools hold the paths themselves, \<open>str\<close>
  being one-to-one on them; \<open>str_path\<close> is used where a path becomes part of a message or
  of a command line.
\<close>

type_synonym path = "string list"

fun split_slash :: "string \<Rightarrow> string \<Rightarrow> string list" where
  "split_slash cur [] = [cur]"
| "split_slash cur (c # cs) =
     (if c = CHR ''/'' then cur # split_slash [] cs else split_slash (cur @ [c]) cs)"

definition Path :: "string \<Rightarrow> path" where
  "Path s = (if s \<noteq> [] \<and> hd s = CHR ''/'' then [''/''] else [])
            @ filter (\<lambda>c. c \<noteq> [] \<and> c \<noteq> ''.'') (split_slash [] s)"

definition is_anchor :: "path \<Rightarrow> bool" where
  "is_anchor p = (p = [] \<or> p = [''/''])"

definition name :: "path \<Rightarrow> string" where
  "name p = (if is_anchor p then [] else last p)"

definition parent :: "path \<Rightarrow> path" where
  "parent p = (if is_anchor p then p else butlast p)"

text \<open>\<open>s.rfind('.')\<close>: the index of the last dot, \<open>None\<close> for Python's \<open>-1\<close>.\<close>

fun rfind_dot :: "string \<Rightarrow> nat option" where
  "rfind_dot [] = None"
| "rfind_dot (c # cs) =
     (case rfind_dot cs of
        Some i \<Rightarrow> Some (Suc i)
      | None \<Rightarrow> if c = CHR ''.'' then Some 0 else None)"

definition suffix_of :: "path \<Rightarrow> string" where
  "suffix_of p =
     (case rfind_dot (name p) of
        None \<Rightarrow> []
      | Some i \<Rightarrow> if 0 < i \<and> i < length (name p) - 1 then drop i (name p) else [])"

definition stem :: "path \<Rightarrow> string" where
  "stem p =
     (case rfind_dot (name p) of
        None \<Rightarrow> name p
      | Some i \<Rightarrow> if 0 < i \<and> i < length (name p) - 1 then take i (name p) else name p)"

text \<open>\<open>p / s\<close> for a string \<open>s\<close>: an absolute \<open>s\<close> replaces \<open>p\<close>.\<close>

definition pjoin :: "path \<Rightarrow> string \<Rightarrow> path" where
  "pjoin p s = (if s \<noteq> [] \<and> hd s = CHR ''/'' then Path s else p @ Path s)"

definition str_path :: "path \<Rightarrow> string" where
  "str_path p =
     (if p = [] then ''.''
      else if hd p = ''/'' then CHR ''/'' # join ''/'' (tl p)
      else join ''/'' p)"

section \<open>The compilation driver (tools/compile.py)\<close>

text \<open>
  What \<open>compile_latex\<close> meets outside itself: which paths exist when it is called, whether
  the output directory can be made, how the compiler process ends for a command line and
  a working directory, which paths exist afterwards, and what reading the log file gives
  (\<open>None\<close> when the read raises).

  The process either exits with a code, having written its two output streams, or does
  not end within the timeout, or cannot be started (permission denied, or another error
  with its message). \<open>subprocess.run\<close> is called with \<open>text=True\<close>: after the process has
  ended it decodes the captured standard output, then the captured standard error, and
  raises \<open>UnicodeDecodeError\<close> for a stream that is not text in the encoding of the
  locale (\<open>Undecodable\<close>, with the message of the exception). \<open>subprocess_run\<close> is how the
  call ends for \<open>compile_latex\<close>: a completed process with its return code and standard
  error, \<open>TimeoutExpired\<close>, \<open>PermissionError\<close>, or any other exception.
\<close>

datatype captured = Decoded string | Undecodable string

datatype process_end =
    Exited int captured captured
  | TimedOut
  | SpawnDenied string
  | SpawnFailed string

datatype run_result =
    Completed int string
  | TimeoutExpired
  | PermissionError string
  | OtherError string

definition subprocess_run :: "process_end \<Rightarrow> run_result" where
  "subprocess_run ending =
     (case ending of
        Exited returncode out err \<Rightarrow>
          (case out of
             Undecodable msg \<Rightarrow> OtherError msg
           | Decoded stdout \<Rightarrow>
               (case err of
                  Undecodable msg \<Rightarrow> OtherError msg
                | Decoded stderr \<Rightarrow> Completed returncode stderr))
      | TimedOut \<Rightarrow> TimeoutExpired
      | SpawnDenied msg \<Rightarrow> PermissionError msg
      | SpawnFailed msg \<Rightarrow> OtherError msg)"

record compile_world =
  exists_before :: "path \<Rightarrow> bool"
  mkdir_error :: "path \<Rightarrow> string option"
  process :: "string list \<Rightarrow> string \<Rightarrow> process_end"
  exists_after :: "path \<Rightarrow> bool"
  read_log :: "path \<Rightarrow> string option"

datatype compile_exn = CompilationError string | MkdirError string

record compilation_result =
  success_c :: bool
  output_path :: "path option"
  error_message_c :: "string option"
  log_content :: "string option"

text \<open>\<open>str(timeout)\<close> in the message of a timeout.\<close>

definition str_timeout :: "int option \<Rightarrow> string" where
  "str_timeout t = (case t of None \<Rightarrow> ''None'' | Some n \<Rightarrow> str_int n)"

definition compile_latex ::
  "compile_world \<Rightarrow> string option \<Rightarrow> string option \<Rightarrow> int option
     \<Rightarrow> compile_exn + compilation_result" where
  "compile_latex w tex_path output_dir timeout =
     (if tex_path = None \<or> tex_path = Some []
        then Inl (CompilationError ''LaTeX file path cannot be empty'')
      else
        let tex_file = Path (the tex_path) in
        if \<not> exists_before w tex_file
          then Inl (CompilationError (''LaTeX file not found: '' @ the tex_path))
        else
          let out = (if output_dir \<noteq> None \<and> output_dir \<noteq> Some []
                     then Path (the output_dir) else parent tex_file)
          in (case mkdir_error w out of
                Some msg \<Rightarrow> Inl (MkdirError msg)
              | None \<Rightarrow>
                  let pdf_path = pjoin out (stem tex_file @ ''.pdf'');
                      cmd = [''pdflatex'', ''-interaction=nonstopmode'', ''-output-directory'',
                             str_path out, str_path tex_file]
                  in (case subprocess_run (process w cmd (str_path out)) of
                        Completed returncode stderr \<Rightarrow>
                          let log_path = pjoin out (stem tex_file @ ''.log'');
                              log = (if exists_after w log_path
                                     then (case read_log w log_path of
                                             Some text \<Rightarrow> text
                                           | None \<Rightarrow> ''Could not read log file'')
                                     else [])
                          in if returncode = 0 \<and> exists_after w pdf_path
                             then Inr \<lparr> success_c = True, output_path = Some pdf_path,
                                        error_message_c = None, log_content = Some log \<rparr>
                             else Inr \<lparr> success_c = False, output_path = None,
                                        error_message_c =
                                          Some (''LaTeX compilation failed with return code ''
                                                  @ str_int returncode
                                                  @ (if stderr \<noteq> [] then '': '' @ stderr else [])),
                                        log_content = Some log \<rparr>
                      | TimeoutExpired \<Rightarrow>
                          Inr \<lparr> success_c = False, output_path = None,
                                error_message_c =
                                  Some (''LaTeX compilation timed out after '' @ str_timeout timeout
                                          @ '' seconds''),
                                log_content = None \<rparr>
                      | PermissionError msg \<Rightarrow>
                          Inr \<lparr> success_c = False, output_path = None,
                                error_message_c = Some (''Permission denied during compilation: '' @ msg),
                                log_content = None \<rparr>
                      | OtherError msg \<Rightarrow>
                          Inr \<lparr> success_c = False, output_path = None,
                                error_message_c = Some (''Unexpected error during compilation: '' @ msg),
                                log_content = None \<rparr>)))"

section \<open>PDF dates (tools/pdf\_info.py)\<close>

text \<open>
  The values \<open>_format_pdf_date\<close> is called with: \<open>None\<close>, a text string, or a byte string
  (a metadata entry that the PDF library could not decode). A byte string has no
  \<open>startswith\<close> for a text prefix: the first statement of the \<open>try\<close> block raises
  \<open>TypeError\<close>, and the handler returns the value it was given.
\<close>

datatype pyval = PyNone | PyStr string | PyBytes string

text \<open>\<open>s[i:j]\<close> for \<open>0 \<le> i \<le> j\<close>.\<close>

definition slice :: "string \<Rightarrow> nat \<Rightarrow> nat \<Rightarrow> string" where
  "slice s i j = take (j - i) (drop i s)"

text \<open>\<open>s.index(c)\<close>, where it is guarded by \<open>c in s\<close>.\<close>

definition index_of :: "char \<Rightarrow> string \<Rightarrow> nat" where
  "index_of c s = length (takeWhile (\<lambda>x. x \<noteq> c) s)"

definition timezone_str :: "string \<Rightarrow> string" where
  "timezone_str pdf_date =
     (if length pdf_date > 14 then
        let tz_part = drop 14 pdf_date in
        if tz_part \<noteq> [] \<and> (hd tz_part = CHR ''+'' \<or> hd tz_part = CHR ''-'') then
          let tz_sign = [hd tz_part];
              tz_hours = (if length tz_part > 2 then slice tz_part 1 3 else ''00'');
              tz_mins = (if apostrophe \<in> set tz_part
                            \<and> length tz_part > index_of apostrophe tz_part + 2
                         then slice tz_part (index_of apostrophe tz_part + 1)
                                (index_of apostrophe tz_part + 3)
                         else ''00'')
          in tz_sign @ tz_hours @ '':'' @ tz_mins
        else ''Z''
      else ''Z'')"

text \<open>
  The \<open>try\<close> block on a text string; no statement of it can raise on one.
  \<open>format_stripped\<close> is the part after the prefix \<open>D:\<close> has been removed.
\<close>

definition format_stripped :: "string \<Rightarrow> string option" where
  "format_stripped pdf_date =
     (if length pdf_date \<ge> 14 then
        Some (slice pdf_date 0 4 @ ''-'' @ slice pdf_date 4 6 @ ''-'' @ slice pdf_date 6 8
                @ ''T'' @ slice pdf_date 8 10 @ '':'' @ slice pdf_date 10 12 @ '':''
                @ slice pdf_date 12 14 @ timezone_str pdf_date)
      else if length pdf_date \<ge> 8 then
        Some (slice pdf_date 0 4 @ ''-'' @ slice pdf_date 4 6 @ ''-'' @ slice pdf_date 6 8
                @ ''T00:00:00Z'')
      else None)"

definition strip_d :: "string \<Rightarrow> string" where
  "strip_d raw = (if prefix ''D:'' raw then drop 2 raw else raw)"

definition format_text_date :: "string \<Rightarrow> string option" where
  "format_text_date raw = format_stripped (strip_d raw)"

definition format_pdf_date :: "pyval \<Rightarrow> pyval" where
  "format_pdf_date pdf_date =
     (case pdf_date of
        PyNone \<Rightarrow> PyNone
      | PyStr s \<Rightarrow>
          if s = [] then PyNone
          else (case format_text_date s of None \<Rightarrow> PyNone | Some text \<Rightarrow> PyStr text)
      | PyBytes b \<Rightarrow> if b = [] then PyNone else PyBytes b)"

section \<open>The auxiliary-file cleaner (tools/cleanup.py)\<close>

subsection \<open>The file system\<close>

text \<open>
  The file system is a table from paths to kinds, in the order in which a directory
  listing yields them, together with what the operating system refuses: files that cannot
  be removed (\<open>sealed\<close>), files that cannot be read for a copy (\<open>unreadable\<close>),
  directories that cannot be created (\<open>no_mkdir\<close>) and directories that cannot be listed
  (\<open>no_list\<close>). The current directory and the root always exist. Symbolic links, other
  kinds of files and the contents of files are not modelled.
\<close>

datatype kind = File | Dir

record filesys =
  nodes :: "(path \<times> kind) list"
  sealed :: "path list"
  unreadable :: "path list"
  no_mkdir :: "path list"
  no_list :: "path list"

datatype os_error =
    FileNotFoundError path
  | FileExistsError path
  | IsADirectoryError path
  | PermissionDenied path
  | SameFileError path

definition str_os_error :: "os_error \<Rightarrow> string" where
  "str_os_error e =
     (case e of
        FileNotFoundError p \<Rightarrow> ''No such file or directory: '' @ str_path p
      | FileExistsError p \<Rightarrow> ''File exists: '' @ str_path p
      | IsADirectoryError p \<Rightarrow> ''Is a directory: '' @ str_path p
      | PermissionDenied p \<Rightarrow> ''Permission denied: '' @ str_path p
      | SameFileError p \<Rightarrow> str_path p @ '' and '' @ str_path p @ '' are the same file'')"

definition kind_of :: "filesys \<Rightarrow> path \<Rightarrow> kind option" where
  "kind_of fs p = (if is_anchor p then Some Dir else map_of (nodes fs) p)"

definition path_exists :: "filesys \<Rightarrow> path \<Rightarrow> bool" where
  "path_exists fs p = (kind_of fs p \<noteq> None)"

definition is_file :: "filesys \<Rightarrow> path \<Rightarrow> bool" where
  "is_file fs p = (kind_of fs p = Some File)"

text \<open>\<open>Path.unlink\<close>.\<close>

definition unlink :: "filesys \<Rightarrow> path \<Rightarrow> os_error + filesys" where
  "unlink fs p =
     (case kind_of fs p of
        None \<Rightarrow> Inl (FileNotFoundError p)
      | Some Dir \<Rightarrow> Inl (IsADirectoryError p)
      | Some File \<Rightarrow>
          if p \<in> set (sealed fs) then Inl (PermissionDenied p)
          else Inr (fs\<lparr>nodes := filter (\<lambda>(q, k). q \<noteq> p) (nodes fs)\<rparr>))"

text \<open>\<open>shutil.copy2\<close>: a destination that is a directory receives the file under its name.\<close>

definition copy2 :: "filesys \<Rightarrow> path \<Rightarrow> path \<Rightarrow> os_error + filesys" where
  "copy2 fs src dst =
     (let target = (if kind_of fs dst = Some Dir then dst @ [name src] else dst) in
      if is_file fs src \<and> target = src then Inl (SameFileError src)
      else (case kind_of fs src of
              None \<Rightarrow> Inl (FileNotFoundError src)
            | Some Dir \<Rightarrow> Inl (IsADirectoryError src)
            | Some File \<Rightarrow>
                if src \<in> set (unreadable fs) then Inl (PermissionDenied src)
                else (case kind_of fs target of
                        Some Dir \<Rightarrow> Inl (IsADirectoryError target)
                      | Some File \<Rightarrow> Inr fs
                      | None \<Rightarrow> Inr (fs\<lparr>nodes := nodes fs @ [(target, File)]\<rparr>))))"

text \<open>\<open>Path.mkdir(exist_ok=True)\<close>.\<close>

definition mkdir :: "filesys \<Rightarrow> path \<Rightarrow> os_error + filesys" where
  "mkdir fs p =
     (case kind_of fs p of
        Some Dir \<Rightarrow> Inr fs
      | Some File \<Rightarrow> Inl (FileExistsError p)
      | None \<Rightarrow>
          if p \<in> set (no_mkdir fs) then Inl (PermissionDenied p)
          else Inr (fs\<lparr>nodes := nodes fs @ [(p, Dir)]\<rparr>))"

text \<open>
  \<open>directory.glob("*")\<close> and \<open>directory.glob("**/*")\<close>: the entries directly inside the
  directory, or at any depth.
\<close>

definition inside :: "bool \<Rightarrow> path \<Rightarrow> path \<Rightarrow> bool" where
  "inside recursive d p =
     (strict_prefix d p \<and> (d = [] \<longrightarrow> hd p \<noteq> ''/'')
      \<and> (recursive \<or> length p = Suc (length d)))"

definition glob :: "filesys \<Rightarrow> path \<Rightarrow> bool \<Rightarrow> os_error + path list" where
  "glob fs d recursive =
     (if d \<in> set (no_list fs) then Inl (PermissionDenied d)
      else Inr (filter (inside recursive d) (map fst (nodes fs))))"

subsection \<open>The extension tables\<close>

definition DEFAULT_CLEANUP_EXTENSIONS :: "string list" where
  "DEFAULT_CLEANUP_EXTENSIONS =
     [''.aux'', ''.log'', ''.out'', ''.fls'', ''.fdb_latexmk'', ''.toc'', ''.lof'', ''.lot'',
      ''.bbl'', ''.blg'', ''.nav'', ''.snm'', ''.vrb'', ''.idx'', ''.ilg'', ''.ind'', ''.glo'',
      ''.gls'', ''.glg'', ''.synctex.gz'', ''.figlist'', ''.fpl'', ''.makefile'', ''.run.xml'']"

definition PROTECTED_EXTENSIONS :: "string list" where
  "PROTECTED_EXTENSIONS =
     [''.tex'', ''.pdf'', ''.bib'', ''.sty'', ''.cls'', ''.dtx'', ''.ins'', ''.png'', ''.jpg'',
      ''.jpeg'', ''.gif'', ''.svg'', ''.eps'', ''.ps'', ''.txt'', ''.md'', ''.py'', ''.sh'',
      ''.bat'']"

definition is_auxiliary_file :: "path \<Rightarrow> bool" where
  "is_auxiliary_file file_path =
     (suffix_of file_path \<in> set DEFAULT_CLEANUP_EXTENSIONS
      \<and> suffix_of file_path \<notin> set PROTECTED_EXTENSIONS)"

subsection \<open>The result and the operations\<close>

text \<open>
  \<open>cleanup_time_seconds\<close> is a clock reading and is left out. A Python \<open>set\<close> of extensions
  is a list without repetitions, in some order of iteration.
\<close>

record cleanup_result =
  success :: bool
  error_message :: "string option"
  tex_file_path :: "path option"
  directory_path :: "path option"
  cleaned_files_count :: int
  cleaned_files :: "path list"
  would_clean_files :: "path list"
  dry_run :: bool
  recursive :: bool
  backup_created :: bool
  backup_directory :: "path option"

datatype cleanup_error = CleanupError string

definition process_file_for_cleanup ::
  "filesys \<Rightarrow> cleanup_result \<Rightarrow> path option \<Rightarrow> path \<Rightarrow> filesys \<times> cleanup_result" where
  "process_file_for_cleanup fs result backup_dir file_path =
     (if dry_run result
        then (fs, result\<lparr>would_clean_files := would_clean_files result @ [file_path]\<rparr>)
      else
        (case (case backup_dir of
                 None \<Rightarrow> Inr fs
               | Some b \<Rightarrow> copy2 fs file_path (b @ [name file_path])) of
           Inl e \<Rightarrow> (fs, result)
         | Inr fs1 \<Rightarrow>
             (case unlink fs1 file_path of
                Inl e \<Rightarrow> (fs1, result)
              | Inr fs2 \<Rightarrow>
                  (fs2, result\<lparr>cleaned_files := cleaned_files result @ [file_path],
                               cleaned_files_count := cleaned_files_count result + 1\<rparr>))))"

text \<open>The loop \<open>for file_path in auxiliary_files\<close>.\<close>

fun process_files ::
  "filesys \<Rightarrow> cleanup_result \<Rightarrow> path option \<Rightarrow> path list \<Rightarrow> filesys \<times> cleanup_result" where
  "process_files fs result backup_dir [] = (fs, result)"
| "process_files fs result backup_dir (f # fs') =
     (case process_file_for_cleanup fs result backup_dir f of
        (fs1, result1) \<Rightarrow> process_files fs1 result1 backup_dir fs')"

text \<open>The loop \<open>for ext in cleanup_extensions\<close> of \<open>_clean_tex_file_auxiliaries\<close>.\<close>

fun clean_tex_file_auxiliaries ::
  "filesys \<Rightarrow> path \<Rightarrow> string list \<Rightarrow> cleanup_result \<Rightarrow> path option
     \<Rightarrow> filesys \<times> cleanup_result" where
  "clean_tex_file_auxiliaries fs tex_file [] result backup_dir = (fs, result)"
| "clean_tex_file_auxiliaries fs tex_file (ext # exts) result backup_dir =
     (let aux_file = pjoin (parent tex_file) (stem tex_file @ ext) in
      if path_exists fs aux_file \<and> is_file fs aux_file
        then (case process_file_for_cleanup fs result backup_dir aux_file of
                (fs1, result1) \<Rightarrow> clean_tex_file_auxiliaries fs1 tex_file exts result1 backup_dir)
      else clean_tex_file_auxiliaries fs tex_file exts result backup_dir)"

definition clean_single_file ::
  "filesys \<Rightarrow> path \<Rightarrow> string list \<Rightarrow> cleanup_result \<Rightarrow> path option
     \<Rightarrow> filesys \<times> cleanup_result" where
  "clean_single_file fs file_path cleanup_extensions result backup_dir =
     (if suffix_of file_path \<in> set cleanup_extensions
        then process_file_for_cleanup fs result backup_dir file_path
      else (fs, result))"

definition find_auxiliary_files ::
  "filesys \<Rightarrow> path \<Rightarrow> bool \<Rightarrow> string list option \<Rightarrow> os_error + path list" where
  "find_auxiliary_files fs directory recur extensions =
     (let exts = (case extensions of None \<Rightarrow> DEFAULT_CLEANUP_EXTENSIONS | Some es \<Rightarrow> es) in
      case glob fs directory recur of
        Inl e \<Rightarrow> Inl e
      | Inr found \<Rightarrow>
          Inr (filter (\<lambda>file_path.
                         is_file fs file_path
                         \<and> suffix_of file_path \<in> set exts
                         \<and> suffix_of file_path \<notin> set PROTECTED_EXTENSIONS) found))"

definition clean_directory_auxiliaries ::
  "filesys \<Rightarrow> path \<Rightarrow> string list \<Rightarrow> cleanup_result \<Rightarrow> path option \<Rightarrow> bool
     \<Rightarrow> os_error + filesys \<times> cleanup_result" where
  "clean_directory_auxiliaries fs directory cleanup_extensions result backup_dir recur =
     (case find_auxiliary_files fs directory recur (Some cleanup_extensions) of
        Inl e \<Rightarrow> Inl e
      | Inr auxiliary_files \<Rightarrow> Inr (process_files fs result backup_dir auxiliary_files))"

text \<open>\<open>stamp\<close> is \<open>datetime.now().strftime("%Y%m%d_%H%M%S")\<close>.\<close>

definition create_backup_directory :: "filesys \<Rightarrow> string \<Rightarrow> path \<Rightarrow> os_error + filesys \<times> path" where
  "create_backup_directory fs stamp path =
     (let backup_name = ''backup_'' @ (if is_file fs path then stem path else name path)
                          @ ''_'' @ stamp;
          backup_dir = pjoin (parent path) backup_name
      in case mkdir fs backup_dir of
           Inl e \<Rightarrow> Inl e
         | Inr fs1 \<Rightarrow> Inr (fs1, backup_dir))"

text \<open>
  \<open>clean_latex\<close> in three parts: \<open>initial_result\<close> is the result it starts from,
  \<open>prepare_backup\<close> the block that makes the backup directory, and \<open>clean_target\<close>
  the body of its \<open>try\<close> block up to the return of the cleaning call (\<open>Inl\<close> when an
  exception leaves it, with the result as it was mutated so far).
\<close>

definition initial_result :: "bool \<Rightarrow> bool \<Rightarrow> cleanup_result" where
  "initial_result dry recur =
     \<lparr> success = False, error_message = None, tex_file_path = None,
       directory_path = None, cleaned_files_count = 0, cleaned_files = [],
       would_clean_files = [], dry_run = dry, recursive = recur,
       backup_created = False, backup_directory = None \<rparr>"

definition prepare_backup ::
  "filesys \<Rightarrow> string \<Rightarrow> path \<Rightarrow> cleanup_result \<Rightarrow> bool \<Rightarrow> bool
     \<Rightarrow> filesys \<times> path option \<times> cleanup_result" where
  "prepare_backup fs stamp path_obj result create_backup dry =
     (if create_backup \<and> \<not> dry
      then (case create_backup_directory fs stamp path_obj of
              Inr (fs1, b) \<Rightarrow> (fs1, Some b, result\<lparr>backup_directory := Some b\<rparr>)
            | Inl e \<Rightarrow>
                (fs, None,
                 result\<lparr>error_message :=
                   Some (''Warning: Backup creation failed: '' @ str_os_error e
                           @ ''. Continuing without backup.'')\<rparr>))
      else (fs, None, result))"

definition clean_target ::
  "filesys \<Rightarrow> path \<Rightarrow> string list \<Rightarrow> cleanup_result \<Rightarrow> path option \<Rightarrow> bool
     \<Rightarrow> os_error \<times> cleanup_result + filesys \<times> cleanup_result" where
  "clean_target fs path_obj cleanup_extensions result backup_dir recur =
     (if is_file fs path_obj
      then let result1 = result\<lparr>tex_file_path := Some path_obj,
                                directory_path := Some (parent path_obj)\<rparr>
           in Inr (if suffix_of path_obj = ''.tex''
                   then clean_tex_file_auxiliaries fs path_obj cleanup_extensions result1 backup_dir
                   else clean_single_file fs path_obj cleanup_extensions result1 backup_dir)
      else let result1 = result\<lparr>directory_path := Some path_obj\<rparr>
           in (case clean_directory_auxiliaries fs path_obj cleanup_extensions result1
                       backup_dir recur of
                 Inl e \<Rightarrow> Inl (e, result1)
               | Inr done \<Rightarrow> Inr done))"

definition clean_latex ::
  "filesys \<Rightarrow> string \<Rightarrow> string option \<Rightarrow> string list option \<Rightarrow> bool \<Rightarrow> bool \<Rightarrow> bool
     \<Rightarrow> filesys \<times> (cleanup_error + cleanup_result)" where
  "clean_latex fs stamp path extensions dry recur create_backup =
     (case path of
        None \<Rightarrow> (fs, Inl (CleanupError ''Path cannot be None''))
      | Some p \<Rightarrow>
          if p = [] then (fs, Inl (CleanupError ''Path cannot be empty''))
          else if \<not> path_exists fs (Path p)
            then (fs, Inl (CleanupError (''Path not found: '' @ p)))
          else
            let path_obj = Path p;
                cleanup_extensions =
                  (case extensions of
                     None \<Rightarrow> DEFAULT_CLEANUP_EXTENSIONS
                   | Some es \<Rightarrow> remdups es)
            in (case prepare_backup fs stamp path_obj (initial_result dry recur)
                       create_backup dry of
                  (fs1, backup_dir, result1) \<Rightarrow>
                    (case clean_target fs1 path_obj cleanup_extensions result1 backup_dir recur of
                       Inr (fs2, result2) \<Rightarrow>
                         (fs2, Inr (result2\<lparr>backup_created :=
                                              (if backup_dir \<noteq> None \<and> cleaned_files result2 \<noteq> []
                                               then True else backup_created result2),
                                            success := True\<rparr>))
                     | Inl (e, result2) \<Rightarrow>
                         (fs1, Inr (result2\<lparr>error_message :=
                                              Some (''Cleanup failed: '' @ str_os_error e)\<rparr>)))))"

section \<open>Notions used in the statements\<close>

text \<open>
  The balance of a text: the number of opening braces minus the number of closing ones,
  every brace counted, escaped or not.
\<close>

fun brace_balance :: "string \<Rightarrow> int" where
  "brace_balance [] = 0"
| "brace_balance (c # cs) =
     (if c = CHR ''{'' then 1 else if c = CHR ''}'' then - 1 else 0) + brace_balance cs"

text \<open>
  The balance as the specification words it, "ignoring escaped braces": a brace that
  follows a backslash is not counted.
\<close>

fun spec_brace_balance :: "string \<Rightarrow> int" where
  "spec_brace_balance [] = 0"
| "spec_brace_balance [c] = (if c = CHR ''{'' then 1 else if c = CHR ''}'' then - 1 else 0)"
| "spec_brace_balance (c # d # cs) =
     (if c = backslash \<and> (d = CHR ''{'' \<or> d = CHR ''}'') then spec_brace_balance cs
      else (if c = CHR ''{'' then 1 else if c = CHR ''}'' then - 1 else 0)
             + spec_brace_balance (d # cs))"

definition is_digit :: "char \<Rightarrow> bool" where
  "is_digit c = (c \<in> set ''0123456789'')"

text \<open>
  What every step of the cleaner keeps of a result: the counter is the length of the
  list, a dry run has removed nothing, and no file that cannot be removed is listed as
  removed.
\<close>

definition tidy :: "filesys \<Rightarrow> cleanup_result \<Rightarrow> bool" where
  "tidy fs r = (cleaned_files_count r = int (length (cleaned_files r))
                \<and> (dry_run r \<longrightarrow> cleaned_files r = [])
                \<and> set (cleaned_files r) \<inter> set (sealed fs) = {})"

text \<open>
  What it means for a text to match a pattern as a whole: the semantics against which
  the matcher \<open>re_match\<close> is justified.
\<close>

inductive matches :: "rx \<Rightarrow> string \<Rightarrow> bool" where
  m_eps: "matches Eps []"
| m_lit: "matches (Lit c) [c]"
| m_space: "is_space c \<Longrightarrow> matches Space [c]"
| m_word: "is_word c \<Longrightarrow> matches Word [c]"
| m_dot: "c \<noteq> newline \<Longrightarrow> matches Dot [c]"
| m_seq: "matches r u \<Longrightarrow> matches s v \<Longrightarrow> matches (Seq r s) (u @ v)"
| m_alt1: "matches r u \<Longrightarrow> matches (Alt r s) u"
| m_alt2: "matches s u \<Longrightarrow> matches (Alt r s) u"
| m_star0: "matches (Star r) []"
| m_star: "matches r u \<Longrightarrow> matches (Star r) v \<Longrightarrow> matches (Star r) (u @ v)"

text \<open>
  \<open>occurs kw env content\<close>: the text contains \<open>\kw{env}\<close>, with any whitespace between
  the keyword and the brace.
\<close>

definition occurs :: "string \<Rightarrow> string \<Rightarrow> string \<Rightarrow> bool" where
  "occurs kw env content =
     (\<exists>pre ws post. content = pre @ backslash # kw @ ws @ ''{'' @ env @ ''}'' @ post
                      \<and> list_all is_space ws)"

text \<open>
  \<open>shrinks fs fs'\<close>: \<open>fs'\<close> is \<open>fs\<close> with some regular files removed and nothing else
  changed.
\<close>

definition shrinks :: "filesys \<Rightarrow> filesys \<Rightarrow> bool" where
  "shrinks fs fs' =
     (sealed fs' = sealed fs \<and> no_list fs' = no_list fs
      \<and> (\<forall>q. kind_of fs' q = kind_of fs q \<or> (kind_of fs q = Some File \<and> kind_of fs' q = None))
      \<and> set (map fst (nodes fs')) \<subseteq> set (map fst (nodes fs)))"

subsection \<open>Examples\<close>

text \<open>
  A project directory with a source, its PDF, two auxiliary files and an image; the log
  file cannot be removed.
\<close>

definition project_fs :: filesys where
  "project_fs =
     \<lparr> nodes = [([''proj''], Dir), ([''proj'', ''paper.tex''], File),
                ([''proj'', ''paper.pdf''], File), ([''proj'', ''paper.aux''], File),
                ([''proj'', ''paper.log''], File), ([''proj'', ''image.png''], File)],
       sealed = [[''proj'', ''paper.log'']], unreadable = [], no_mkdir = [], no_list = [] \<rparr>"

text \<open>The same project where the backup directory of the stamp \<open>20240101_120000\<close> cannot be
  made.\<close>

definition locked_fs :: filesys where
  "locked_fs = project_fs\<lparr>no_mkdir := [[''backup_proj_20240101_120000'']]\<rparr>"

text \<open>A disk with one file, \<open>doc.tex\<close>, that holds a given text.\<close>

definition holding :: "string \<Rightarrow> string \<Rightarrow> file_state" where
  "holding content = (\<lambda>p. if p = ''doc.tex'' then Text content else Missing)"

text \<open>The current directory holding one auxiliary file.\<close>

definition cwd_fs :: filesys where
  "cwd_fs = \<lparr> nodes = [([''a.aux''], File)], sealed = [], unreadable = [], no_mkdir = [],
              no_list = [] \<rparr>"

text \<open>
  A world for the compiler: \<open>doc/paper.tex\<close> exists, \<open>pdflatex\<close> exits with code \<open>rc\<close>
  and the PDF is there afterwards or not; \<open>doc/paper.tex\<close>, a regular file, cannot be
  made a directory.
\<close>

definition paper_world :: "int \<Rightarrow> bool \<Rightarrow> compile_world" where
  "paper_world rc pdf =
     \<lparr> exists_before = (\<lambda>p. p = [''doc'', ''paper.tex'']),
       mkdir_error = (\<lambda>p. if p = [''doc'', ''paper.tex'']
                           then Some ''[Errno 17] File exists: doc/paper.tex'' else None),
       process = (\<lambda>cmd cwd. Exited rc (Decoded []) (Decoded [])),
       exists_after = (\<lambda>p. p = [''doc'', ''paper.tex''] \<or> (pdf \<and> p = [''doc'', ''paper.pdf''])),
       read_log = (\<lambda>p. None) \<rparr>"

text \<open>
  The same world where the compiler exits with code 0 and leaves the PDF, and has printed
  a byte that is not text.
\<close>

definition garbled_world :: compile_world where
  "garbled_world =
     (paper_world 0 True)
       \<lparr>process := (\<lambda>cmd cwd. Exited 0 (Undecodable ''invalid start byte'') (Decoded []))\<rparr>"

section \<open>Properties of the validator\<close>

lemma brace_loop_never_negative:
  "\<forall>k \<le> length s. 0 \<le> n + brace_balance (take k s)
   \<Longrightarrow> brace_loop n s = (n + brace_balance s, False)"
proof (induction s arbitrary: n)
  case Nil
  then show ?case by simp
next
  case (Cons c cs)
  let ?d = "(if c = CHR ''{'' then 1 else if c = CHR ''}'' then - 1 else 0) :: int"
  have step: "0 \<le> n + ?d"
    using Cons.prems [rule_format, of 1] by simp
  have rest: "\<forall>k \<le> length cs. 0 \<le> (n + ?d) + brace_balance (take k cs)"
  proof (intro allI impI)
    fix k assume "k \<le> length cs"
    then have "0 \<le> n + brace_balance (take (Suc k) (c # cs))"
      using Cons.prems by (metis Suc_le_mono length_Cons)
    then show "0 \<le> (n + ?d) + brace_balance (take k cs)" by (simp add: algebra_simps)
  qed
  have "brace_loop (n + ?d) cs = ((n + ?d) + brace_balance cs, False)"
    by (rule Cons.IH [OF rest])
  with step show ?case by (auto simp: Let_def)
qed

lemma brace_loop_dip:
  "0 \<le> n \<Longrightarrow> k \<le> length s \<Longrightarrow> n + brace_balance (take k s) < 0
   \<Longrightarrow> brace_loop n s = (- 1, True)"
proof (induction s arbitrary: n k)
  case Nil
  then show ?case by simp
next
  case (Cons c cs)
  let ?d = "(if c = CHR ''{'' then 1 else if c = CHR ''}'' then - 1 else 0) :: int"
  show ?case
  proof (cases "n + ?d < 0")
    case True
    with Cons.prems(1) have "n = 0" "c = CHR ''}''" by (auto split: if_splits)
    then show ?thesis by simp
  next
    case False
    from Cons.prems obtain k' where k: "k = Suc k'"
      by (cases k) auto
    with Cons.prems have "k' \<le> length cs" "(n + ?d) + brace_balance (take k' cs) < 0"
      by (auto simp: algebra_simps)
    with False have "brace_loop (n + ?d) cs = (- 1, True)"
      using Cons.IH [of "n + ?d" k'] by simp
    with False show ?thesis by (auto simp: Let_def)
  qed
qed

lemma brace_errors_empty_iff:
  "brace_errors s = []
   \<longleftrightarrow> (brace_balance s = 0 \<and> (\<forall>k \<le> length s. 0 \<le> brace_balance (take k s)))"
proof (cases "\<forall>k \<le> length s. 0 \<le> brace_balance (take k s)")
  case True
  then have "brace_loop 0 s = (brace_balance s, False)"
    using brace_loop_never_negative [of s 0] by simp
  with True show ?thesis by (auto simp: brace_errors_def)
next
  case False
  then obtain k where "k \<le> length s" "brace_balance (take k s) < 0" by force
  then have "brace_loop 0 s = (- 1, True)"
    using brace_loop_dip [of 0 k s] by simp
  with False show ?thesis by (auto simp: brace_errors_def)
qed

lemma brace_errors_prefix: "e \<in> set (brace_errors s) \<Longrightarrow> prefix ''Unmatched'' e"
  by (auto simp: brace_errors_def split: prod.splits if_splits)

lemma structure_errors_prefix: "e \<in> set (structure_errors s) \<Longrightarrow> prefix ''Missing'' e"
  by (auto simp: structure_errors_def split: if_splits)

lemma unclosed_errors_prefix: "e \<in> set (unclosed_errors s) \<Longrightarrow> prefix ''Unclosed'' e"
  by (auto simp: unclosed_errors_def)

lemma unopened_errors_prefix: "e \<in> set (unopened_errors s) \<Longrightarrow> prefix ''Environment'' e"
  by (auto simp: unopened_errors_def)

lemma errors_validate_content:
  "errors (validate_content s q t)
   = structure_errors s @ brace_errors s @ unclosed_errors s @ unopened_errors s"
  by (simp add: validate_content_def Let_def)

lemma no_brace_error_iff:
  "(\<forall>e \<in> set (errors (validate_content s q t)). \<not> prefix ''Unmatched'' e)
   \<longleftrightarrow> brace_errors s = []"
proof
  assume a: "\<forall>e \<in> set (errors (validate_content s q t)). \<not> prefix ''Unmatched'' e"
  show "brace_errors s = []"
  proof (rule ccontr)
    assume "brace_errors s \<noteq> []"
    then obtain e where e: "e \<in> set (brace_errors s)" by (cases "brace_errors s") auto
    then have "e \<in> set (errors (validate_content s q t))" by (simp add: errors_validate_content)
    with a brace_errors_prefix [OF e] show False by blast
  qed
next
  assume b: "brace_errors s = []"
  show "\<forall>e \<in> set (errors (validate_content s q t)). \<not> prefix ''Unmatched'' e"
  proof
    fix e assume "e \<in> set (errors (validate_content s q t))"
    with b consider "e \<in> set (structure_errors s)" | "e \<in> set (unclosed_errors s)"
      | "e \<in> set (unopened_errors s)"
      by (auto simp: errors_validate_content)
    then show "\<not> prefix ''Unmatched'' e"
    proof cases
      case 1 from structure_errors_prefix [OF 1] show ?thesis by (auto simp: prefix_def)
    next
      case 2 from unclosed_errors_prefix [OF 2] show ?thesis by (auto simp: prefix_def)
    next
      case 3 from unopened_errors_prefix [OF 3] show ?thesis by (auto simp: prefix_def)
    qed
  qed
qed

lemma validate_latex_text:
  assumes "p \<noteq> []" "\<not> (quick \<and> strict)" "disk p = Text content"
  shows "validate_latex disk (Some p) quick strict = Inr (validate_content content quick strict)"
  using assms by (auto simp: validate_latex_def)

lemma brace_errors_content:
  "(\<forall>e \<in> set (errors (validate_content content quick strict)). \<not> prefix ''Unmatched'' e)
   \<longleftrightarrow> (brace_balance content = 0
        \<and> (\<forall>k \<le> length content. 0 \<le> brace_balance (take k content)))"
  by (simp only: no_brace_error_iff brace_errors_empty_iff)

text \<open>
  Claim C4, as stated: the number of opening minus closing braces, escaped braces ignored,
  is zero if and only if no brace error is reported. It fails twice. The scan counts
  escaped braces like any other: for the text \<open>\{\<close> the balance without escaped braces is
  zero and the validator reports one unclosed brace. And the scan stops at the first
  closing brace that has no opening one before it: for the text \<open>}{\<close>, with as many
  opening as closing braces and none escaped, it reports two errors.
\<close>

theorem brace_count_counterexample:
  "spec_brace_balance [backslash, CHR ''{''] = 0
   \<and> validate_latex (holding [backslash, CHR ''{'']) (Some ''doc.tex'') False False
     = Inr \<lparr> is_valid = False,
             error_message_v = Some (''Missing '' @ [backslash] @ ''documentclass command; Missing ''
                @ [backslash] @ ''begin{document}; Missing '' @ [backslash]
                @ ''end{document}; Unmatched opening braces: 1 unclosed''),
             errors = [''Missing '' @ [backslash] @ ''documentclass command'',
                       ''Missing '' @ [backslash] @ ''begin{document}'',
                       ''Missing '' @ [backslash] @ ''end{document}'',
                       ''Unmatched opening braces: 1 unclosed''],
             warnings = [] \<rparr>
   \<and> spec_brace_balance ''}{'' = 0
   \<and> brace_balance ''}{'' = 0
   \<and> errors (projr (validate_latex (holding ''}{'') (Some ''doc.tex'') False False))
     = [''Missing '' @ [backslash] @ ''documentclass command'',
        ''Missing '' @ [backslash] @ ''begin{document}'',
        ''Missing '' @ [backslash] @ ''end{document}'',
        ''Unmatched closing brace }'', ''Unmatched closing braces: 1 extra'']"
  by code_simp

text \<open>
  Claim C4, amended: the validator reports no brace error (no error that starts with
  "Unmatched") if and only if, every brace counted whether escaped or not, the text has as
  many opening as closing braces and no prefix of it has more closing than opening ones.
\<close>

theorem brace_errors_iff_nested:
  assumes "p \<noteq> []" "\<not> (quick \<and> strict)" "disk p = Text content"
  shows "\<exists>r. validate_latex disk (Some p) quick strict = Inr r
           \<and> ((\<forall>e \<in> set (errors r). \<not> prefix ''Unmatched'' e)
                \<longleftrightarrow> (brace_balance content = 0
                     \<and> (\<forall>k \<le> length content. 0 \<le> brace_balance (take k content))))"
  using validate_latex_text [of p quick strict disk content] assms
    brace_errors_content [of content quick strict]
  by simp

theorem brace_errors_iff_nested_witness:
  "(\<exists>r. validate_latex (holding ''a{b{c}}'') (Some ''doc.tex'') False False = Inr r
        \<and> list_all (\<lambda>e. \<not> prefix ''Unmatched'' e) (errors r))
   \<and> (\<exists>r. validate_latex (holding ''}{'') (Some ''doc.tex'') False False = Inr r
        \<and> list_ex (prefix ''Unmatched'') (errors r))"
proof -
  have h: "''doc.tex'' \<noteq> []" "\<not> (False \<and> False)" "holding c ''doc.tex'' = Text c" for c
    by (simp_all add: holding_def)
  have nested: "brace_balance ''a{b{c}}'' = 0
      \<and> (\<forall>k \<le> length ''a{b{c}}''. 0 \<le> brace_balance (take k ''a{b{c}}''))"
    by (simp add: le_Suc_eq all_conj_distrib)
  have dip: "\<not> (\<forall>k \<le> length ''}{''. 0 \<le> brace_balance (take k ''}{''))"
    by (auto intro: exI [of _ 1])
  from brace_errors_iff_nested [of "''doc.tex''" False False "holding ''a{b{c}}''" "''a{b{c}}''"] h nested
  have a: "\<exists>r. validate_latex (holding ''a{b{c}}'') (Some ''doc.tex'') False False = Inr r
        \<and> list_all (\<lambda>e. \<not> prefix ''Unmatched'' e) (errors r)"
    by (auto simp: list_all_iff)
  from brace_errors_iff_nested [of "''doc.tex''" False False "holding ''}{''" "''}{''"] h dip
  have b: "\<exists>r. validate_latex (holding ''}{'') (Some ''doc.tex'') False False = Inr r
        \<and> list_ex (prefix ''Unmatched'') (errors r)"
    by (auto simp: list_ex_iff)
  from a b show ?thesis by blast
qed

subsection \<open>The matcher finds exactly the matches\<close>

inductive_cases m_neverE: "matches Never w"
inductive_cases m_epsE: "matches Eps w"
inductive_cases m_litE: "matches (Lit c) w"
inductive_cases m_spaceE: "matches Space w"
inductive_cases m_wordE: "matches Word w"
inductive_cases m_dotE: "matches Dot w"
inductive_cases m_seqE: "matches (Seq r s) w"
inductive_cases m_altE: "matches (Alt r s) w"

lemma nullable_iff: "nullable r \<longleftrightarrow> matches r []"
proof (induction r)
  case (Seq r s)
  show ?case
  proof
    assume "nullable (Seq r s)"
    with Seq have "matches r []" "matches s []" by auto
    from m_seq [OF this] show "matches (Seq r s) []" by simp
  next
    assume "matches (Seq r s) []"
    then show "nullable (Seq r s)" using Seq by (auto elim: m_seqE)
  qed
qed (auto intro: matches.intros elim: m_neverE m_epsE m_litE m_spaceE m_wordE m_dotE m_altE)

lemma star_cons:
  assumes "matches (Star r) x" "x = c # w"
  shows "\<exists>u v. w = u @ v \<and> matches r (c # u) \<and> matches (Star r) v"
  using assms
proof (induction "Star r" x arbitrary: w rule: matches.induct)
  case m_star0
  then show ?case by simp
next
  case (m_star u v)
  show ?case
  proof (cases u)
    case Nil
    with m_star show ?thesis by simp
  next
    case (Cons a u')
    with m_star.prems have "a = c" "w = u' @ v" by auto
    with m_star.hyps(1,3) Cons show ?thesis by blast
  qed
qed

lemma deriv_iff: "matches (deriv c r) w \<longleftrightarrow> matches r (c # w)"
proof (induction r arbitrary: w)
  case Never
  show ?case by (auto elim: m_neverE)
next
  case Eps
  show ?case by (auto elim: m_neverE m_epsE)
next
  case (Lit a)
  show ?case by (auto elim: m_neverE m_epsE m_litE intro: matches.intros)
next
  case Space
  show ?case by (auto elim: m_neverE m_epsE m_spaceE intro: matches.intros)
next
  case Word
  show ?case by (auto elim: m_neverE m_epsE m_wordE intro: matches.intros)
next
  case Dot
  show ?case by (auto elim: m_neverE m_epsE m_dotE intro: matches.intros)
next
  case (Seq r s)
  show ?case
  proof
    assume l: "matches (deriv c (Seq r s)) w"
    show "matches (Seq r s) (c # w)"
    proof (cases "nullable r")
      case True
      with l have "matches (Seq (deriv c r) s) w \<or> matches (deriv c s) w"
        by (auto elim: m_altE)
      then show ?thesis
      proof
        assume "matches (Seq (deriv c r) s) w"
        then obtain u v where "w = u @ v" "matches (deriv c r) u" "matches s v"
          by (auto elim: m_seqE)
        with Seq.IH(1) have "matches r (c # u)" by simp
        from m_seq [OF this \<open>matches s v\<close>] \<open>w = u @ v\<close> show ?thesis by simp
      next
        assume "matches (deriv c s) w"
        with Seq.IH(2) have "matches s (c # w)" by simp
        moreover from True have "matches r []" by (simp add: nullable_iff)
        ultimately have "matches (Seq r s) ([] @ c # w)" by (rule m_seq [rotated])
        then show ?thesis by simp
      qed
    next
      case False
      with l obtain u v where "w = u @ v" "matches (deriv c r) u" "matches s v"
        by (auto elim: m_seqE)
      with Seq.IH(1) have "matches r (c # u)" by simp
      from m_seq [OF this \<open>matches s v\<close>] \<open>w = u @ v\<close> show ?thesis by simp
    qed
  next
    assume "matches (Seq r s) (c # w)"
    then obtain u v where uv: "c # w = u @ v" "matches r u" "matches s v"
      by (auto elim: m_seqE)
    show "matches (deriv c (Seq r s)) w"
    proof (cases u)
      case Nil
      with uv have "nullable r" "matches (deriv c s) w"
        using Seq.IH(2) by (auto simp: nullable_iff)
      then show ?thesis by (auto intro: m_alt2)
    next
      case (Cons a u')
      with uv have "matches (deriv c r) u'" "w = u' @ v"
        using Seq.IH(1) by auto
      with uv(3) have "matches (Seq (deriv c r) s) w" by (auto intro: m_seq)
      then show ?thesis by (auto intro: m_alt1)
    qed
  qed
next
  case (Alt r s)
  then show ?case by (auto elim: m_altE intro: m_alt1 m_alt2)
next
  case (Star r)
  show ?case
  proof
    assume "matches (deriv c (Star r)) w"
    then obtain u v where "w = u @ v" "matches (deriv c r) u" "matches (Star r) v"
      by (auto elim: m_seqE)
    with Star.IH have "matches r (c # u)" by simp
    from m_star [OF this \<open>matches (Star r) v\<close>] \<open>w = u @ v\<close>
    show "matches (Star r) (c # w)" by simp
  next
    assume "matches (Star r) (c # w)"
    from star_cons [OF this refl] obtain u v
      where "w = u @ v" "matches r (c # u)" "matches (Star r) v" by blast
    with Star.IH have "matches (Seq (deriv c r) (Star r)) w" by (auto intro: m_seq)
    then show "matches (deriv c (Star r)) w" by simp
  qed
qed

lemma re_match_iff: "re_match r s \<longleftrightarrow> (\<exists>u v. s = u @ v \<and> matches r u)"
proof (induction s arbitrary: r)
  case Nil
  show ?case by (simp add: nullable_iff)
next
  case (Cons c cs)
  show ?case
  proof
    assume "re_match r (c # cs)"
    then consider "nullable r" | "re_match (deriv c r) cs" by auto
    then show "\<exists>u v. c # cs = u @ v \<and> matches r u"
    proof cases
      case 1
      then have "c # cs = [] @ (c # cs) \<and> matches r []" by (simp add: nullable_iff)
      then show ?thesis by blast
    next
      case 2
      with Cons.IH obtain u v where "cs = u @ v" "matches (deriv c r) u" by blast
      then have "c # cs = (c # u) @ v \<and> matches r (c # u)" by (simp add: deriv_iff)
      then show ?thesis by blast
    qed
  next
    assume "\<exists>u v. c # cs = u @ v \<and> matches r u"
    then obtain u v where uv: "c # cs = u @ v" "matches r u" by blast
    show "re_match r (c # cs)"
    proof (cases u)
      case Nil
      with uv have "nullable r" by (simp add: nullable_iff)
      then show ?thesis by simp
    next
      case (Cons a u')
      with uv have "cs = u' @ v" "matches (deriv c r) u'" by (auto simp: deriv_iff)
      with Cons.IH [of "deriv c r"] show ?thesis by auto
    qed
  qed
qed

lemma re_search_iff: "re_search r s \<longleftrightarrow> (\<exists>p u v. s = p @ u @ v \<and> matches r u)"
proof (induction s)
  case Nil
  show ?case by (simp add: nullable_iff)
next
  case (Cons c cs)
  show ?case
  proof
    assume "re_search r (c # cs)"
    then consider "re_match r (c # cs)" | "re_search r cs" by auto
    then show "\<exists>p u v. c # cs = p @ u @ v \<and> matches r u"
    proof cases
      case 1
      then obtain u v where "c # cs = [] @ u @ v \<and> matches r u" by (auto simp: re_match_iff)
      then show ?thesis by blast
    next
      case 2
      with Cons.IH obtain p u v where "cs = p @ u @ v" "matches r u" by blast
      then have "c # cs = (c # p) @ u @ v \<and> matches r u" by simp
      then show ?thesis by blast
    qed
  next
    assume "\<exists>p u v. c # cs = p @ u @ v \<and> matches r u"
    then obtain p u v where puv: "c # cs = p @ u @ v" "matches r u" by blast
    show "re_search r (c # cs)"
    proof (cases p)
      case Nil
      with puv have "re_match r (c # cs)" by (auto simp: re_match_iff)
      then show ?thesis by simp
    next
      case (Cons a p')
      with puv have "cs = p' @ u @ v" by simp
      with puv(2) Cons.IH show ?thesis by auto
    qed
  qed
qed

lemma matches_lits: "matches (lits s) u \<longleftrightarrow> u = s"
proof (induction s arbitrary: u)
  case Nil
  show ?case by (auto elim: m_epsE intro: m_eps)
next
  case (Cons c cs)
  show ?case
  proof
    assume "matches (lits (c # cs)) u"
    then obtain a b where "u = a @ b" "matches (Lit c) a" "matches (lits cs) b"
      by (auto elim: m_seqE)
    with Cons.IH show "u = c # cs" by (auto elim: m_litE)
  next
    assume "u = c # cs"
    moreover have "matches (Seq (Lit c) (lits cs)) ([c] @ cs)"
      using Cons.IH by (intro m_seq m_lit) simp
    ultimately show "matches (lits (c # cs)) u" by simp
  qed
qed

lemma star_space_all:
  assumes "matches (Star Space) u"
  shows "list_all is_space u"
  using assms
  by (induction "Star Space" u rule: matches.induct) (auto elim: m_spaceE)

lemma all_space_star: "list_all is_space u \<Longrightarrow> matches (Star Space) u"
proof (induction u)
  case Nil
  show ?case by (rule m_star0)
next
  case (Cons c cs)
  then have "matches Space [c]" "matches (Star Space) cs" by (auto intro: m_space)
  from m_star [OF this] show ?case by simp
qed

lemma matches_star_space: "matches (Star Space) u \<longleftrightarrow> list_all is_space u"
  using star_space_all all_space_star by blast

lemma matches_Seq: "matches (Seq r s) w \<longleftrightarrow> (\<exists>u v. w = u @ v \<and> matches r u \<and> matches s v)"
proof
  assume "matches (Seq r s) w"
  then show "\<exists>u v. w = u @ v \<and> matches r u \<and> matches s v"
    by (rule m_seqE) blast
next
  assume "\<exists>u v. w = u @ v \<and> matches r u \<and> matches s v"
  then show "matches (Seq r s) w" by (auto intro: m_seq)
qed

lemma matches_Lit: "matches (Lit c) w \<longleftrightarrow> w = [c]"
  by (auto elim: m_litE intro: m_lit)

lemma matches_Eps: "matches Eps w \<longleftrightarrow> w = []"
  by (auto elim: m_epsE intro: m_eps)

lemma matches_env_rx:
  "matches (env_rx kw env) u
   \<longleftrightarrow> (\<exists>ws. u = backslash # kw @ ws @ ''{'' @ env @ ''}'' \<and> list_all is_space ws)"
  by (auto simp: env_rx_def matches_Seq matches_Lit matches_Eps matches_lits matches_star_space)

lemma re_search_env_rx: "re_search (env_rx kw env) content \<longleftrightarrow> occurs kw env content"
proof
  assume "re_search (env_rx kw env) content"
  then obtain p u v where "content = p @ u @ v" "matches (env_rx kw env) u"
    by (auto simp: re_search_iff)
  then obtain ws where "content = p @ backslash # kw @ ws @ ''{'' @ env @ ''}'' @ v"
    "list_all is_space ws"
    by (auto simp: matches_env_rx)
  then show "occurs kw env content"
    unfolding occurs_def by blast
next
  assume "occurs kw env content"
  then obtain pre ws post where c: "content = pre @ backslash # kw @ ws @ ''{'' @ env @ ''}'' @ post"
    and ws: "list_all is_space ws" by (auto simp: occurs_def)
  from ws have "matches (env_rx kw env) (backslash # kw @ ws @ ''{'' @ env @ ''}'')"
    by (auto simp: matches_env_rx)
  moreover from c have "content = pre @ (backslash # kw @ ws @ ''{'' @ env @ ''}'') @ post" by simp
  ultimately show "re_search (env_rx kw env) content"
    unfolding re_search_iff by blast
qed


subsection \<open>Environments\<close>

lemma not_space_brace: "\<not> is_space CHR ''{''" "\<not> is_space backslash"
  by (simp_all add: is_space_def backslash_def)

lemma not_word_brace: "\<not> is_word CHR ''}''" "\<not> is_word backslash"
  by (simp_all add: is_word_def backslash_def)

lemma strip_prefix_append: "strip_prefix p (p @ r) = Some r"
  by (induction p) auto

lemma strip_prefix_Some: "strip_prefix p s = Some r \<Longrightarrow> s = p @ r"
  by (induction p s rule: strip_prefix.induct) (auto split: if_splits)

lemma dropWhile_spaces:
  "list_all is_space ws \<Longrightarrow> dropWhile is_space (ws @ CHR ''{'' # r) = CHR ''{'' # r"
  by (induction ws) (auto simp: not_space_brace)

lemma takeWhile_spaces:
  "list_all is_space ws \<Longrightarrow> takeWhile is_space (ws @ CHR ''{'' # r) = ws"
  by (induction ws) (auto simp: not_space_brace)

lemma dropWhile_words:
  "list_all is_word nm \<Longrightarrow> dropWhile is_word (nm @ CHR ''}'' # r) = CHR ''}'' # r"
  by (induction nm) (auto simp: not_word_brace)

lemma takeWhile_words:
  "list_all is_word nm \<Longrightarrow> takeWhile is_word (nm @ CHR ''}'' # r) = nm"
  by (induction nm) (auto simp: not_word_brace)

lemma match_env_complete:
  assumes "list_all is_space ws" "nm \<noteq> []" "list_all is_word nm"
  shows "match_env kw (backslash # kw @ ws @ ''{'' @ nm @ ''}'' @ post)
         = Some (nm, length (backslash # kw @ ws @ ''{'' @ nm @ ''}''))"
proof -
  have "strip_prefix (backslash # kw) ((backslash # kw) @ ws @ CHR ''{'' # nm @ CHR ''}'' # post)
        = Some (ws @ CHR ''{'' # nm @ CHR ''}'' # post)"
    by (rule strip_prefix_append)
  then show ?thesis
    using assms
    by (simp add: match_env_def dropWhile_spaces takeWhile_spaces dropWhile_words takeWhile_words)
qed

lemma match_env_sound:
  assumes "match_env kw s = Some (nm, n)"
  shows "\<exists>ws rest. s = backslash # kw @ ws @ ''{'' @ nm @ ''}'' @ rest
           \<and> list_all is_space ws \<and> list_all is_word nm \<and> nm \<noteq> []
           \<and> n = length (backslash # kw @ ws @ ''{'' @ nm @ ''}'')"
proof -
  from assms obtain r where r: "strip_prefix (backslash # kw) s = Some r"
    by (auto simp: match_env_def split: option.splits)
  then have s: "s = (backslash # kw) @ r" by (rule strip_prefix_Some)
  from assms r obtain r2 where r2: "dropWhile is_space r = CHR ''{'' # r2"
    by (auto simp: match_env_def split: list.splits if_splits)
  from assms r r2 obtain r3 where r3: "dropWhile is_word r2 = CHR ''}'' # r3"
    and nm: "nm = takeWhile is_word r2" "nm \<noteq> []"
    and n: "n = Suc (length kw) + length (takeWhile is_space r) + 1 + length (takeWhile is_word r2) + 1"
    by (auto simp: match_env_def split: list.splits if_splits)
  have "r = takeWhile is_space r @ dropWhile is_space r" by simp
  with r2 have r': "r = takeWhile is_space r @ CHR ''{'' # r2" by simp
  have "r2 = takeWhile is_word r2 @ dropWhile is_word r2" by simp
  with r3 nm have r2': "r2 = nm @ CHR ''}'' # r3" by simp
  have sp: "list_all is_space (takeWhile is_space r)"
    by (auto simp: list_all_iff dest: set_takeWhileD)
  have wd: "list_all is_word nm"
    unfolding nm by (auto simp: list_all_iff dest: set_takeWhileD)
  from s r' r2' have "s = backslash # kw @ takeWhile is_space r @ ''{'' @ nm @ ''}'' @ r3"
    by simp
  with sp wd nm n show ?thesis by (intro exI [of _ "takeWhile is_space r"] exI [of _ r3]) simp
qed

lemma findall_env_finds:
  assumes "backslash \<notin> set kw" "list_all is_space ws" "nm \<noteq> []" "list_all is_word nm"
    and "k \<le> length pre" "backslash \<notin> set (take k pre)"
  shows "nm \<in> set (findall_env kw k (pre @ backslash # kw @ ws @ ''{'' @ nm @ ''}'' @ post))"
  using assms(5,6)
proof (induction pre arbitrary: k)
  case Nil
  then have "k = 0" by simp
  with match_env_complete [OF assms(2,3,4), of kw post] show ?case by simp
next
  case (Cons c pre)
  let ?occ = "backslash # kw @ ws @ ''{'' @ nm @ ''}'' @ post"
  show ?case
  proof (cases k)
    case (Suc k')
    with Cons.prems have "k' \<le> length pre" "backslash \<notin> set (take k' pre)" by auto
    from Cons.IH [OF this] Suc show ?thesis by simp
  next
    case 0
    show ?thesis
    proof (cases "match_env kw (c # pre @ ?occ)")
      case None
      with 0 Cons.IH [of 0] show ?thesis by simp
    next
      case (Some a)
      then obtain nm' n where a: "a = (nm', n)" by (cases a)
      from match_env_sound [OF Some [unfolded a]] obtain ws' rest
        where m: "c # pre @ ?occ = backslash # kw @ ws' @ ''{'' @ nm' @ ''}'' @ rest"
          and ws': "list_all is_space ws'" and nm': "list_all is_word nm'"
          and n: "n = length (backslash # kw @ ws' @ ''{'' @ nm' @ ''}'')"
        by blast
      define tail where "tail = kw @ ws' @ ''{'' @ nm' @ ''}''"
      define occ where "occ = ?occ"
      have free: "backslash \<notin> set tail"
        using assms(1) ws' nm' not_space_brace(2) not_word_brace(2)
        by (auto simp: tail_def list_all_iff backslash_def)
      from m have tl: "pre @ occ = tail @ rest" by (simp add: tail_def occ_def)
      from n have n1: "n - 1 = length tail" by (simp add: tail_def)
      have occ: "occ = backslash # tl occ" by (simp add: occ_def)
      from tl have "\<exists>us. pre = tail @ us \<and> us @ occ = rest \<or> pre @ us = tail \<and> occ = us @ rest"
        by (simp only: append_eq_append_conv2)
      then obtain us where "pre = tail @ us \<or> (pre @ us = tail \<and> occ = us @ rest)"
        by blast
      then have "\<exists>vs. pre = tail @ vs"
      proof
        assume "pre = tail @ us"
        then show ?thesis by blast
      next
        assume split: "pre @ us = tail \<and> occ = us @ rest"
        show ?thesis
        proof (cases us)
          case Nil
          with split show ?thesis by simp
        next
          case (Cons u us')
          with split occ have "u = backslash" by (metis append_Cons list.inject)
          with Cons split have "backslash \<in> set tail" by auto
          with free show ?thesis by simp
        qed
      qed
      then obtain vs where pre: "pre = tail @ vs" by blast
      with n1 have le: "n - 1 \<le> length pre" and "take (n - 1) pre = tail" by simp_all
      with free have "backslash \<notin> set (take (n - 1) pre)" by simp
      from Cons.IH [OF le this] Some a 0 show ?thesis by simp
    qed
  qed
qed

lemma environment_errors_content:
  "(occurs ''begin'' x content \<and> x \<noteq> [] \<and> list_all is_word x \<and> \<not> occurs ''end'' x content
      \<longrightarrow> ''Unclosed environment: '' @ x \<in> set (errors (validate_content content quick strict)))
   \<and> (occurs ''end'' y content \<and> y \<noteq> [] \<and> list_all is_word y \<and> \<not> occurs ''begin'' y content
      \<longrightarrow> ''Environment ended without begin: '' @ y
            \<in> set (errors (validate_content content quick strict)))"
proof -
  have found: "nm \<in> set (findall_env kw 0 content)"
    if "occurs kw nm content" "nm \<noteq> []" "list_all is_word nm" "backslash \<notin> set kw" for kw nm
  proof -
    from that(1) obtain pre ws post
      where "content = pre @ backslash # kw @ ws @ ''{'' @ nm @ ''}'' @ post" "list_all is_space ws"
      by (auto simp: occurs_def)
    with findall_env_finds [OF that(4) _ that(2,3), of ws 0 pre post] show ?thesis by simp
  qed
  have kw: "backslash \<notin> set ''begin''" "backslash \<notin> set ''end''"
    by (simp_all add: backslash_def)
  show ?thesis
    using found [OF _ _ _ kw(1), of x] found [OF _ _ _ kw(2), of y]
    by (auto simp: errors_validate_content unclosed_errors_def unopened_errors_def re_search_env_rx)
qed


text \<open>
  Claim C3, as stated: a \<open>\begin{X}\<close> with no \<open>\end{X}\<close> after it is reported as unclosed,
  and an \<open>\end{Y}\<close> with no \<open>\begin{Y}\<close> before it as ended without begin. The check asks
  whether the other marker occurs anywhere in the text, not on which side: in
  \<open>\end{a}\begin{a}\<close> the \<open>\begin{a}\<close> has no \<open>\end{a}\<close> after it and the \<open>\end{a}\<close> no
  \<open>\begin{a}\<close> before it, and neither error is reported. And a name is found only when it
  is made of word characters: the unclosed \<open>\begin{align*}\<close> is not reported.
\<close>

theorem environment_order_counterexample:
  "errors (projr (validate_latex (holding (backslash # ''end{a}'' @ backslash # ''begin{a}''))
                    (Some ''doc.tex'') False False))
     = [''Missing '' @ [backslash] @ ''documentclass command'',
        ''Missing '' @ [backslash] @ ''begin{document}'',
        ''Missing '' @ [backslash] @ ''end{document}'']
   \<and> errors (projr (validate_latex (holding (backslash # ''begin{align*}''))
                    (Some ''doc.tex'') False False))
     = [''Missing '' @ [backslash] @ ''documentclass command'',
        ''Missing '' @ [backslash] @ ''begin{document}'',
        ''Missing '' @ [backslash] @ ''end{document}'']"
  by code_simp

text \<open>
  Claim C3, amended: for a name \<open>X\<close> of word characters (letters, digits, underscore), if
  \<open>\begin{X}\<close> occurs in the text and \<open>\end{X}\<close> occurs nowhere in it, the errors contain
  "Unclosed environment: X"; and if \<open>\end{Y}\<close> occurs and \<open>\begin{Y}\<close> occurs nowhere, they
  contain "Environment ended without begin: Y".
\<close>

theorem unmatched_environment_reported:
  assumes "p \<noteq> []" "\<not> (quick \<and> strict)" "disk p = Text content"
  shows "\<exists>r. validate_latex disk (Some p) quick strict = Inr r
           \<and> (occurs ''begin'' x content \<and> x \<noteq> [] \<and> list_all is_word x
                  \<and> \<not> occurs ''end'' x content
                \<longrightarrow> ''Unclosed environment: '' @ x \<in> set (errors r))
           \<and> (occurs ''end'' y content \<and> y \<noteq> [] \<and> list_all is_word y
                  \<and> \<not> occurs ''begin'' y content
                \<longrightarrow> ''Environment ended without begin: '' @ y \<in> set (errors r))"
  using validate_latex_text [of p quick strict disk content] assms
    environment_errors_content [of x content quick strict y]
  by simp

theorem unmatched_environment_reported_witness:
  "(\<exists>r. validate_latex (holding (backslash # ''begin{a}x'')) (Some ''doc.tex'') False False = Inr r
        \<and> ''Unclosed environment: a'' \<in> set (errors r))
   \<and> (\<exists>r. validate_latex (holding (''x'' @ backslash # ''end  {b_1}'')) (Some ''doc.tex'') False False
          = Inr r
        \<and> ''Environment ended without begin: b_1'' \<in> set (errors r))"
proof -
  have h: "''doc.tex'' \<noteq> []" "\<not> (False \<and> False)" "holding c ''doc.tex'' = Text c" for c
    by (simp_all add: holding_def)
  have a: "occurs ''begin'' ''a'' (backslash # ''begin{a}x'')"
    unfolding occurs_def
    by (intro exI [of _ "[]"] exI [of _ "''x''"]) simp
  have b: "occurs ''end'' ''b_1'' (''x'' @ backslash # ''end  {b_1}'')"
    unfolding occurs_def
    by (intro exI [of _ "''x''"] exI [of _ "''  ''"] exI [of _ "[]"]) (simp add: is_space_def)
  have na: "\<not> occurs ''end'' ''a'' (backslash # ''begin{a}x'')"
    unfolding re_search_env_rx [symmetric] by code_simp
  have nb: "\<not> occurs ''begin'' ''b_1'' (''x'' @ backslash # ''end  {b_1}'')"
    unfolding re_search_env_rx [symmetric] by code_simp
  have w: "''a'' \<noteq> []" "list_all is_word ''a''" "''b_1'' \<noteq> []" "list_all is_word ''b_1''"
    by (simp_all add: is_word_def)
  from unmatched_environment_reported [of "''doc.tex''" False False "holding (backslash # ''begin{a}x'')"
      "backslash # ''begin{a}x''" "''a''" "''b_1''"] h a na w(1,2)
  have one: "\<exists>r. validate_latex (holding (backslash # ''begin{a}x'')) (Some ''doc.tex'') False False = Inr r
        \<and> ''Unclosed environment: a'' \<in> set (errors r)" by auto
  from unmatched_environment_reported [of "''doc.tex''" False False "holding (''x'' @ backslash # ''end  {b_1}'')"
      "''x'' @ backslash # ''end  {b_1}''" "''b_1''" "''b_1''"] h b nb w(3,4)
  have two: "\<exists>r. validate_latex (holding (''x'' @ backslash # ''end  {b_1}'')) (Some ''doc.tex'') False False
          = Inr r
        \<and> ''Environment ended without begin: b_1'' \<in> set (errors r)" by auto
  from one two show ?thesis by blast
qed

section \<open>Properties of the compilation driver\<close>

lemma Path_doc_paper: "Path ''doc/paper.tex'' = [''doc'', ''paper.tex'']"
  by (simp add: Path_def)

text \<open>
  Claim C2, as stated: \<open>success\<close> is true if and only if the compiler process exits with
  code zero and the PDF named after the input's stem exists in the output directory. The
  code tests the return code only when \<open>subprocess.run\<close> has returned: a process that exits
  with code zero and leaves the PDF, but has printed a byte that is not text, makes the
  call raise while it decodes the output, and the handler for unexpected errors returns
  \<open>success = False\<close>.
\<close>

theorem exit_zero_with_pdf_counterexample:
  "process garbled_world
       [''pdflatex'', ''-interaction=nonstopmode'', ''-output-directory'', ''doc'',
        ''doc/paper.tex''] ''doc''
     = Exited 0 (Undecodable ''invalid start byte'') (Decoded [])
   \<and> exists_after garbled_world [''doc'', ''paper.pdf'']
   \<and> compile_latex garbled_world (Some ''doc/paper.tex'') None (Some 30)
     = Inr \<lparr> success_c = False, output_path = None,
             error_message_c = Some ''Unexpected error during compilation: invalid start byte'',
             log_content = None \<rparr>"
  by (simp add: compile_latex_def garbled_world_def paper_world_def subprocess_run_def
      Path_doc_paper parent_def is_anchor_def str_path_def)

text \<open>
  Claim C2, amended: once the input path is accepted and the output directory is there,
  \<open>compile_latex\<close> returns a result, and its \<open>success\<close> is true if and only if
  \<open>subprocess.run\<close> returns (the process exits within the timeout and both captured
  streams decode as text) with return code zero and the file named after the input's
  stem, with extension \<open>.pdf\<close>, exists in the output directory. In particular a zero exit
  code without that file gives \<open>success = False\<close>, and so does every call of
  \<open>subprocess.run\<close> that raises.
\<close>

theorem compile_latex_success_iff:
  assumes "p \<noteq> []" and "exists_before w (Path p)"
    and "out = (if output_dir \<noteq> None \<and> output_dir \<noteq> Some [] then Path (the output_dir)
                else parent (Path p))"
    and "mkdir_error w out = None"
    and "process w [''pdflatex'', ''-interaction=nonstopmode'', ''-output-directory'',
                    str_path out, str_path (Path p)] (str_path out) = ending"
  shows "\<exists>r. compile_latex w (Some p) output_dir timeout = Inr r
           \<and> (success_c r \<longleftrightarrow> (\<exists>stdout stderr. ending = Exited 0 (Decoded stdout) (Decoded stderr))
                                 \<and> exists_after w (pjoin out (stem (Path p) @ ''.pdf'')))
           \<and> (success_c r \<longleftrightarrow> (\<exists>stderr. subprocess_run ending = Completed 0 stderr)
                                 \<and> exists_after w (pjoin out (stem (Path p) @ ''.pdf'')))
           \<and> (success_c r \<longrightarrow> output_path r = Some (pjoin out (stem (Path p) @ ''.pdf'')))
           \<and> (\<not> success_c r \<longrightarrow> error_message_c r \<noteq> None)"
proof -
  have ends: "(\<exists>stderr. subprocess_run ending = Completed 0 stderr)
              \<longleftrightarrow> (\<exists>stdout stderr. ending = Exited 0 (Decoded stdout) (Decoded stderr))"
    by (auto simp: subprocess_run_def split: process_end.splits captured.splits)
  show ?thesis
    unfolding ends [symmetric]
    using assms
    by (cases "subprocess_run ending") (auto simp: compile_latex_def Let_def)
qed

theorem compile_latex_success_iff_witness:
  "(\<exists>r. compile_latex (paper_world 0 False) (Some ''doc/paper.tex'') None None = Inr r
        \<and> \<not> success_c r)
   \<and> (\<exists>r. compile_latex (paper_world 0 True) (Some ''doc/paper.tex'') None None = Inr r
        \<and> success_c r)
   \<and> (\<exists>r. compile_latex (paper_world 1 True) (Some ''doc/paper.tex'') None None = Inr r
        \<and> \<not> success_c r)
   \<and> (\<exists>r. compile_latex garbled_world (Some ''doc/paper.tex'') None None = Inr r
        \<and> \<not> success_c r)"
proof -
  have facts: "''doc/paper.tex'' \<noteq> []" "exists_before (paper_world rc pdf) (Path ''doc/paper.tex'')"
    "[''doc''] = (if (None :: string option) \<noteq> None \<and> (None :: string option) \<noteq> Some []
                 then Path (the None) else parent (Path ''doc/paper.tex''))"
    "mkdir_error (paper_world rc pdf) [''doc''] = None"
    "process (paper_world rc pdf) [''pdflatex'', ''-interaction=nonstopmode'',
       ''-output-directory'', str_path [''doc''], str_path (Path ''doc/paper.tex'')]
       (str_path [''doc'']) = Exited rc (Decoded []) (Decoded [])"
    for rc pdf
    by (simp_all add: paper_world_def Path_doc_paper parent_def is_anchor_def)
  have garbled: "exists_before garbled_world (Path ''doc/paper.tex'')"
    "mkdir_error garbled_world [''doc''] = None"
    "process garbled_world [''pdflatex'', ''-interaction=nonstopmode'',
       ''-output-directory'', str_path [''doc''], str_path (Path ''doc/paper.tex'')]
       (str_path [''doc'']) = Exited 0 (Undecodable ''invalid start byte'') (Decoded [])"
    by (simp_all add: garbled_world_def paper_world_def Path_doc_paper)
  have pdf: "pjoin [''doc''] (stem (Path ''doc/paper.tex'') @ ''.pdf'') = [''doc'', ''paper.pdf'']"
    by (simp add: Path_doc_paper pjoin_def stem_def name_def is_anchor_def Path_def)
  from compile_latex_success_iff [OF facts, of 0 False None] pdf
  have a: "\<exists>r. compile_latex (paper_world 0 False) (Some ''doc/paper.tex'') None None = Inr r
             \<and> \<not> success_c r"
    by (auto simp: paper_world_def)
  from compile_latex_success_iff [OF facts, of 0 True None] pdf
  have b: "\<exists>r. compile_latex (paper_world 0 True) (Some ''doc/paper.tex'') None None = Inr r
             \<and> success_c r"
    by (auto simp: paper_world_def)
  from compile_latex_success_iff [OF facts, of 1 True None] pdf
  have c: "\<exists>r. compile_latex (paper_world 1 True) (Some ''doc/paper.tex'') None None = Inr r
             \<and> \<not> success_c r"
    by (auto simp: paper_world_def)
  from compile_latex_success_iff [OF facts(1) garbled(1) facts(3) garbled(2,3), of None] pdf
  have d: "\<exists>r. compile_latex garbled_world (Some ''doc/paper.tex'') None None = Inr r
             \<and> \<not> success_c r"
    by auto
  from a b c d show ?thesis by blast
qed

text \<open>
  Claim C5 says that after the input path is accepted no exception leaves
  \<open>compile_latex\<close>, the creation of the output directory included. The call of \<open>mkdir\<close>
  stands before the \<open>try\<close> block: with an existing source file and an output directory
  that cannot be made (here the path of the source file itself, a regular file) the
  exception of \<open>mkdir\<close> leaves the call and no result is returned.
\<close>

theorem compile_latex_mkdir_escapes:
  "compile_latex (paper_world 0 True) (Some ''doc/paper.tex'') (Some ''doc/paper.tex'') (Some 30)
   = Inl (MkdirError ''[Errno 17] File exists: doc/paper.tex'')"
  by (simp add: compile_latex_def paper_world_def Path_doc_paper)

text \<open>Whatever the directory and the message: a failing \<open>mkdir\<close> is not turned into a result.\<close>

lemma compile_latex_mkdir_error:
  assumes "p \<noteq> []" and "exists_before w (Path p)"
    and "mkdir_error w (if output_dir \<noteq> None \<and> output_dir \<noteq> Some [] then Path (the output_dir)
                        else parent (Path p)) = Some msg"
  shows "compile_latex w (Some p) output_dir timeout = Inl (MkdirError msg)"
  using assms by (simp add: compile_latex_def Let_def)

section \<open>Properties of the date conversion\<close>

lemma length_two: "length xs = 2 \<longleftrightarrow> (\<exists>a b. xs = [a, b])"
  by (auto simp: length_Suc_conv numeral_2_eq_2)

lemma digit_not_D: "is_digit c \<Longrightarrow> c \<noteq> CHR ''D''"
  by (auto simp: is_digit_def)

lemma digit_not_apostrophe: "is_digit c \<Longrightarrow> c \<noteq> apostrophe"
  by (auto simp: is_digit_def apostrophe_def)

lemma strip_d_prefixed: "strip_d (''D:'' @ core) = core"
  by (simp add: strip_d_def)

lemma strip_d_digits: "core \<noteq> [] \<Longrightarrow> is_digit (hd core) \<Longrightarrow> strip_d core = core"
  by (cases core) (auto simp: strip_d_def dest: digit_not_D)

lemma strip_d_either:
  assumes "pre = [] \<or> pre = ''D:''" "core \<noteq> []" "is_digit (hd core)"
  shows "strip_d (pre @ core) = core"
  using assms strip_d_prefixed strip_d_digits by auto

lemma timezone_str_none:
  assumes "length core = 14" "rest = [] \<or> (hd rest \<noteq> CHR ''+'' \<and> hd rest \<noteq> CHR ''-'')"
  shows "timezone_str (core @ rest) = ''Z''"
  using assms by (cases rest) (auto simp: timezone_str_def Let_def)

lemma timezone_str_offset:
  assumes "length core = 14" "sign = CHR ''+'' \<or> sign = CHR ''-''"
    "length th = 2" "length tm = 2" "apostrophe \<notin> set th"
  shows "timezone_str (core @ [sign] @ th @ [apostrophe] @ tm @ [apostrophe])
         = [sign] @ th @ '':'' @ tm"
proof -
  from assms obtain a b where th: "th = [a, b]" by (auto simp: length_two)
  from assms obtain c d where tm: "tm = [c, d]" by (auto simp: length_two)
  from assms th have ne: "a \<noteq> apostrophe" "b \<noteq> apostrophe" by auto
  have "sign \<noteq> apostrophe" using assms(2) by (auto simp: apostrophe_def)
  then have idx: "index_of apostrophe ([sign] @ th @ [apostrophe] @ tm @ [apostrophe]) = 3"
    using ne by (simp add: index_of_def th tm)
  show ?thesis
    using assms(1,2) idx by (auto simp: timezone_str_def Let_def slice_def th tm)
qed

lemma format_stripped_fields:
  assumes "length y = 4" "length mo = 2" "length d = 2" "length h = 2" "length mi = 2"
    "length s = 2"
  shows "format_stripped (y @ mo @ d @ h @ mi @ s @ rest)
         = Some (y @ ''-'' @ mo @ ''-'' @ d @ ''T'' @ h @ '':'' @ mi @ '':'' @ s
                   @ timezone_str (y @ mo @ d @ h @ mi @ s @ rest))"
  using assms by (simp add: format_stripped_def slice_def)

lemma format_text_date_fields:
  assumes "length y = 4" "length mo = 2" "length d = 2" "length h = 2" "length mi = 2"
    "length s = 2" "is_digit (hd y)" "pre = [] \<or> pre = ''D:''"
  shows "format_text_date (pre @ y @ mo @ d @ h @ mi @ s @ rest)
         = Some (y @ ''-'' @ mo @ ''-'' @ d @ ''T'' @ h @ '':'' @ mi @ '':'' @ s
                   @ timezone_str ((y @ mo @ d @ h @ mi @ s) @ rest))"
proof -
  have "y \<noteq> []" using assms(1) by auto
  then have "strip_d (pre @ (y @ mo @ d @ h @ mi @ s @ rest)) = y @ mo @ d @ h @ mi @ s @ rest"
    using assms(7,8) by (intro strip_d_either) auto
  then show ?thesis
    using format_stripped_fields [OF assms(1-6), of rest] by (simp add: format_text_date_def)
qed

text \<open>
  What the conversion does: a PDF date (an optional prefix \<open>D:\<close>, the fourteen digits of
  year, month, day, hour, minute and second, and an optional offset of a sign, two digits,
  an apostrophe, two digits and an apostrophe) becomes the ISO-8601 text with that offset,
  or with a trailing \<open>Z\<close> when what follows the digits does not start with a sign; fewer
  than 8 characters after the prefix give no date; from 8 to 13 characters give the first
  eight as a date at midnight UTC; and a value on which the \<open>try\<close> block raises (a byte
  string: on a text string it cannot) is returned as it was given.
\<close>

lemma format_pdf_date_iso:
  assumes "length y = 4" "length mo = 2" "length d = 2" "length h = 2" "length mi = 2"
    "length s = 2" "list_all is_digit (y @ mo @ d @ h @ mi @ s)"
    and "pre = [] \<or> pre = ''D:''"
    and "sign = CHR ''+'' \<or> sign = CHR ''-''"
    and "length th = 2" "length tm = 2" "list_all is_digit (th @ tm)"
    and "rest = [] \<or> (hd rest \<noteq> CHR ''+'' \<and> hd rest \<noteq> CHR ''-'')"
    and "raw \<noteq> []" "bytes \<noteq> []"
  shows "format_pdf_date (PyStr (pre @ y @ mo @ d @ h @ mi @ s
                                  @ [sign] @ th @ [apostrophe] @ tm @ [apostrophe]))
           = PyStr (y @ ''-'' @ mo @ ''-'' @ d @ ''T'' @ h @ '':'' @ mi @ '':'' @ s
                      @ [sign] @ th @ '':'' @ tm)
         \<and> format_pdf_date (PyStr (pre @ y @ mo @ d @ h @ mi @ s @ rest))
           = PyStr (y @ ''-'' @ mo @ ''-'' @ d @ ''T'' @ h @ '':'' @ mi @ '':'' @ s @ ''Z'')
         \<and> format_pdf_date (PyStr (''D:20231201143000+05'' @ [apostrophe] @ ''30'' @ [apostrophe]))
           = PyStr ''2023-12-01T14:30:00+05:30''
         \<and> (length (strip_d raw) < 8 \<longrightarrow> format_pdf_date (PyStr raw) = PyNone)
         \<and> (8 \<le> length (strip_d raw) \<and> length (strip_d raw) < 14 \<longrightarrow>
              format_pdf_date (PyStr raw)
              = PyStr (slice (strip_d raw) 0 4 @ ''-'' @ slice (strip_d raw) 4 6 @ ''-''
                         @ slice (strip_d raw) 6 8 @ ''T00:00:00Z''))
         \<and> format_pdf_date (PyBytes bytes) = PyBytes bytes
         \<and> format_pdf_date (PyStr []) = PyNone
         \<and> format_pdf_date PyNone = PyNone"
proof -
  let ?core = "y @ mo @ d @ h @ mi @ s"
  have len: "length ?core = 14" using assms(1-6) by simp
  have y: "y \<noteq> []" using assms(1) by auto
  then have hd: "is_digit (hd y)" using assms(7) by (cases y) auto
  have th: "apostrophe \<notin> set th"
    using assms(12) digit_not_apostrophe by (auto simp: list_all_iff)
  have ne: "pre @ ?core @ more \<noteq> []" for more using y by simp
  have offset: "timezone_str (?core @ [sign] @ th @ [apostrophe] @ tm @ [apostrophe])
                = [sign] @ th @ '':'' @ tm"
    by (rule timezone_str_offset [OF len assms(9,10,11) th])
  have utc: "timezone_str (?core @ rest) = ''Z''"
    by (rule timezone_str_none [OF len assms(13)])
  have one: "format_pdf_date (PyStr (pre @ ?core @ [sign] @ th @ [apostrophe] @ tm @ [apostrophe]))
             = PyStr (y @ ''-'' @ mo @ ''-'' @ d @ ''T'' @ h @ '':'' @ mi @ '':'' @ s
                        @ [sign] @ th @ '':'' @ tm)"
    using format_text_date_fields [OF assms(1-6) hd assms(8),
        of "[sign] @ th @ [apostrophe] @ tm @ [apostrophe]"] offset y
    by (simp add: format_pdf_date_def)
  have two: "format_pdf_date (PyStr (pre @ ?core @ rest))
             = PyStr (y @ ''-'' @ mo @ ''-'' @ d @ ''T'' @ h @ '':'' @ mi @ '':'' @ s @ ''Z'')"
    using format_text_date_fields [OF assms(1-6) hd assms(8), of rest] utc y
    by (simp add: format_pdf_date_def)
  have three: "format_pdf_date (PyStr (''D:20231201143000+05'' @ [apostrophe] @ ''30'' @ [apostrophe]))
               = PyStr ''2023-12-01T14:30:00+05:30''"
    by (simp add: format_pdf_date_def format_text_date_def format_stripped_def strip_d_def
        timezone_str_def slice_def index_of_def apostrophe_def)
  have four: "length (strip_d raw) < 8 \<longrightarrow> format_pdf_date (PyStr raw) = PyNone"
    using assms(14) by (simp add: format_pdf_date_def format_text_date_def format_stripped_def)
  have five: "8 \<le> length (strip_d raw) \<and> length (strip_d raw) < 14 \<longrightarrow>
              format_pdf_date (PyStr raw)
              = PyStr (slice (strip_d raw) 0 4 @ ''-'' @ slice (strip_d raw) 4 6 @ ''-''
                         @ slice (strip_d raw) 6 8 @ ''T00:00:00Z'')"
    using assms(14) by (simp add: format_pdf_date_def format_text_date_def format_stripped_def)
  have six: "format_pdf_date (PyBytes bytes) = PyBytes bytes"
    using assms(15) by (simp add: format_pdf_date_def)
  have seven: "format_pdf_date (PyStr []) = PyNone" "format_pdf_date PyNone = PyNone"
    by (simp_all add: format_pdf_date_def)
  from one two three four five six seven show ?thesis by simp
qed

lemma format_pdf_date_iso_examples:
  "format_pdf_date (PyStr (''D:19991231235959-08'' @ [apostrophe] @ ''00'' @ [apostrophe]))
     = PyStr ''1999-12-31T23:59:59-08:00''
   \<and> format_pdf_date (PyStr ''D:19991231235959Z'') = PyStr ''1999-12-31T23:59:59Z''
   \<and> format_pdf_date (PyStr ''D:2023'') = PyNone
   \<and> format_pdf_date (PyStr ''D:20231201'') = PyStr ''2023-12-01T00:00:00Z''
   \<and> format_pdf_date (PyBytes ''D:20231201'') = PyBytes ''D:20231201''"
proof -
  have hyps: "length ''1999'' = 4" "length ''12'' = 2" "length ''31'' = 2" "length ''23'' = 2"
    "length ''59'' = 2" "length ''59'' = 2"
    "list_all is_digit (''1999'' @ ''12'' @ ''31'' @ ''23'' @ ''59'' @ ''59'')"
    "''D:'' = [] \<or> ''D:'' = ''D:''"
    "CHR ''-'' = CHR ''+'' \<or> CHR ''-'' = CHR ''-''"
    "length ''08'' = 2" "length ''00'' = 2" "list_all is_digit (''08'' @ ''00'')"
    "''Z'' = [] \<or> (hd ''Z'' \<noteq> CHR ''+'' \<and> hd ''Z'' \<noteq> CHR ''-'')"
    by (simp_all add: is_digit_def)
  have short: "''D:2023'' \<noteq> []" "length (strip_d ''D:2023'') < 8"
    and day: "''D:20231201'' \<noteq> []"
      "8 \<le> length (strip_d ''D:20231201'') \<and> length (strip_d ''D:20231201'') < 14"
      "slice (strip_d ''D:20231201'') 0 4 @ ''-'' @ slice (strip_d ''D:20231201'') 4 6 @ ''-''
         @ slice (strip_d ''D:20231201'') 6 8 @ ''T00:00:00Z'' = ''2023-12-01T00:00:00Z''"
    by (simp_all add: strip_d_def slice_def)
  from format_pdf_date_iso [OF hyps short(1) day(1)] short(2)
  have a: "format_pdf_date (PyStr (''D:19991231235959-08'' @ [apostrophe] @ ''00'' @ [apostrophe]))
             = PyStr ''1999-12-31T23:59:59-08:00''"
    "format_pdf_date (PyStr ''D:19991231235959Z'') = PyStr ''1999-12-31T23:59:59Z''"
    "format_pdf_date (PyStr ''D:2023'') = PyNone"
    "format_pdf_date (PyBytes ''D:20231201'') = PyBytes ''D:20231201''"
    by simp_all
  from format_pdf_date_iso [OF hyps day(1) day(1)] day(2,3)
  have b: "format_pdf_date (PyStr ''D:20231201'') = PyStr ''2023-12-01T00:00:00Z''"
    by simp
  from a b show ?thesis by simp
qed

text \<open>
  Claim C6 ends: on a parse failure the original raw string is returned unchanged. The
  comment of the handler says the same ("If date parsing fails, return the original
  string"), and the repository's test of a malformed date expects \<open>D:20231301\<close>, with its
  month 13, to come back as it is. The code never parses: it cuts the text at fixed
  positions and checks no digit, so no text is a parse failure to it. The text of the
  test comes back as a date in month 13, and a text that is no date at all comes back cut
  into date fields.
\<close>

theorem malformed_date_reformatted:
  "format_pdf_date (PyStr ''D:20231301'') = PyStr ''2023-13-01T00:00:00Z''
   \<and> format_pdf_date (PyStr ''D:yesterday evening'') = PyStr ''yest-er-daTy :ev:enZ''"
  by code_simp

section \<open>Properties of the cleaner\<close>

subsection \<open>What every step keeps\<close>

lemma unlink_Inr:
  assumes "unlink fs p = Inr fs'"
  shows "is_file fs p" "p \<notin> set (sealed fs)"
    "fs' = fs\<lparr>nodes := filter (\<lambda>(q, k). q \<noteq> p) (nodes fs)\<rparr>"
  using assms by (auto simp: unlink_def is_file_def split: option.splits kind.splits if_splits)

lemma copy2_Inr:
  assumes "copy2 fs src dst = Inr fs'"
  shows "sealed fs' = sealed fs" "unreadable fs' = unreadable fs"
    "no_mkdir fs' = no_mkdir fs" "no_list fs' = no_list fs"
  using assms by (auto simp: copy2_def Let_def split: option.splits kind.splits if_splits)

lemma process_file_dry:
  "dry_run r \<Longrightarrow> process_file_for_cleanup fs r b f = (fs, r\<lparr>would_clean_files := would_clean_files r @ [f]\<rparr>)"
  by (simp add: process_file_for_cleanup_def)

lemma process_file_cases:
  assumes "process_file_for_cleanup fs r b f = (fs', r')"
  shows "(dry_run r \<and> fs' = fs \<and> r' = r\<lparr>would_clean_files := would_clean_files r @ [f]\<rparr>)
       \<or> (\<not> dry_run r \<and> r' = r \<and> sealed fs' = sealed fs)
       \<or> (\<not> dry_run r \<and> f \<notin> set (sealed fs) \<and> sealed fs' = sealed fs
            \<and> r' = r\<lparr>cleaned_files := cleaned_files r @ [f],
                       cleaned_files_count := cleaned_files_count r + 1\<rparr>)"
proof (cases "dry_run r")
  case True
  with assms show ?thesis by (simp add: process_file_dry)
next
  case False
  show ?thesis
  proof (cases "case b of None \<Rightarrow> Inr fs | Some d \<Rightarrow> copy2 fs f (d @ [name f])")
    case (Inl e)
    with False assms show ?thesis by (simp add: process_file_for_cleanup_def)
  next
    case (Inr fs1)
    then have s1: "sealed fs1 = sealed fs"
      by (cases b) (auto dest: copy2_Inr)
    show ?thesis
    proof (cases "unlink fs1 f")
      case (Inl e)
      with False Inr assms s1 show ?thesis by (auto simp: process_file_for_cleanup_def)
    next
      case (Inr fs2)
      from unlink_Inr [OF this] s1 have "f \<notin> set (sealed fs)" "sealed fs2 = sealed fs" by auto
      with False \<open>(case b of None \<Rightarrow> Inr fs | Some d \<Rightarrow> copy2 fs f (d @ [name f])) = Inr fs1\<close> Inr assms
      show ?thesis by (auto simp: process_file_for_cleanup_def)
    qed
  qed
qed

lemma process_file_tidy:
  assumes "process_file_for_cleanup fs r b f = (fs', r')" "tidy fs r"
  shows "tidy fs' r' \<and> dry_run r' = dry_run r \<and> success r' = success r
         \<and> error_message r' = error_message r \<and> backup_directory r' = backup_directory r
         \<and> backup_created r' = backup_created r
         \<and> sealed fs' = sealed fs"
  using process_file_cases [OF assms(1)] assms(2)
  by (auto simp: tidy_def)

lemma process_files_tidy:
  assumes "process_files fs r b cs = (fs', r')" "tidy fs r"
  shows "tidy fs' r' \<and> dry_run r' = dry_run r \<and> success r' = success r
         \<and> error_message r' = error_message r \<and> backup_directory r' = backup_directory r
         \<and> backup_created r' = backup_created r
         \<and> sealed fs' = sealed fs"
  using assms
proof (induction cs arbitrary: fs r)
  case Nil
  then show ?case by simp
next
  case (Cons c cs)
  obtain fs1 r1 where step: "process_file_for_cleanup fs r b c = (fs1, r1)"
    by (cases "process_file_for_cleanup fs r b c")
  with Cons.prems have rest: "process_files fs1 r1 b cs = (fs', r')" by simp
  from process_file_tidy [OF step Cons.prems(2)] Cons.IH [OF rest]
  show ?case by simp
qed

lemma clean_tex_tidy:
  assumes "clean_tex_file_auxiliaries fs t exts r b = (fs', r')" "tidy fs r"
  shows "tidy fs' r' \<and> dry_run r' = dry_run r \<and> success r' = success r
         \<and> error_message r' = error_message r \<and> backup_directory r' = backup_directory r
         \<and> backup_created r' = backup_created r
         \<and> sealed fs' = sealed fs"
  using assms
proof (induction exts arbitrary: fs r)
  case Nil
  then show ?case by simp
next
  case (Cons ext exts)
  let ?aux = "pjoin (parent t) (stem t @ ext)"
  show ?case
  proof (cases "path_exists fs ?aux \<and> is_file fs ?aux")
    case True
    obtain fs1 r1 where step: "process_file_for_cleanup fs r b ?aux = (fs1, r1)"
      by (cases "process_file_for_cleanup fs r b ?aux")
    with True Cons.prems have rest: "clean_tex_file_auxiliaries fs1 t exts r1 b = (fs', r')"
      by (simp add: Let_def)
    from process_file_tidy [OF step Cons.prems(2)] Cons.IH [OF rest]
    show ?thesis by simp
  next
    case False
    with Cons.prems have rest: "clean_tex_file_auxiliaries fs t exts r b = (fs', r')"
      by (auto simp: Let_def)
    from Cons.IH [OF rest Cons.prems(2)] show ?thesis .
  qed
qed

lemma clean_single_tidy:
  assumes "clean_single_file fs p exts r b = (fs', r')" "tidy fs r"
  shows "tidy fs' r' \<and> dry_run r' = dry_run r \<and> success r' = success r
         \<and> error_message r' = error_message r \<and> backup_directory r' = backup_directory r
         \<and> backup_created r' = backup_created r
         \<and> sealed fs' = sealed fs"
  using assms process_file_tidy [of fs r b p fs' r']
  by (auto simp: clean_single_file_def split: if_splits)

lemma clean_target_tidy:
  assumes "clean_target fs p exts r b recur = Inr (fs', r')" "tidy fs r"
  shows "tidy fs' r' \<and> dry_run r' = dry_run r \<and> success r' = success r
         \<and> error_message r' = error_message r \<and> backup_directory r' = backup_directory r
         \<and> backup_created r' = backup_created r
         \<and> sealed fs' = sealed fs"
proof (cases "is_file fs p")
  case True
  let ?r1 = "r\<lparr>tex_file_path := Some p, directory_path := Some (parent p)\<rparr>"
  have t1: "tidy fs ?r1" using assms(2) by (simp add: tidy_def)
  show ?thesis
  proof (cases "suffix_of p = ''.tex''")
    case tex: True
    with True assms(1) have "clean_tex_file_auxiliaries fs p exts ?r1 b = (fs', r')"
      by (simp add: clean_target_def Let_def)
    from clean_tex_tidy [OF this t1] show ?thesis by simp
  next
    case False
    with True assms(1) have "clean_single_file fs p exts ?r1 b = (fs', r')"
      by (simp add: clean_target_def Let_def)
    from clean_single_tidy [OF this t1] show ?thesis by simp
  qed
next
  case False
  let ?r1 = "r\<lparr>directory_path := Some p\<rparr>"
  have t1: "tidy fs ?r1" using assms(2) by (simp add: tidy_def)
  from False assms(1) obtain cs where "process_files fs ?r1 b cs = (fs', r')"
    by (auto simp: clean_target_def clean_directory_auxiliaries_def Let_def split: sum.splits)
  from process_files_tidy [OF this t1] show ?thesis by simp
qed

lemma clean_target_Inl:
  assumes "clean_target fs p exts r b recur = Inl (e, r')"
  shows "r' = r\<lparr>directory_path := Some p\<rparr> \<and> \<not> is_file fs p \<and> p \<in> set (no_list fs)"
  using assms
  by (auto simp: clean_target_def clean_directory_auxiliaries_def find_auxiliary_files_def glob_def Let_def
      split: sum.splits if_splits)

lemma prepare_backup_tidy:
  assumes "prepare_backup fs stamp p (initial_result dry recur) cb dry = (fs1, b, r1)"
  shows "tidy fs1 r1 \<and> dry_run r1 = dry \<and> sealed fs1 = sealed fs \<and> cleaned_files r1 = []"
  using assms
  by (auto simp: prepare_backup_def initial_result_def tidy_def create_backup_directory_def mkdir_def Let_def
      split: if_splits sum.splits option.splits kind.splits)

lemma clean_latex_tidy:
  assumes "clean_latex fs stamp path exts dry recur cb = (fs', Inr r)"
  shows "tidy fs' r \<and> dry_run r = dry \<and> sealed fs' = sealed fs"
proof -
  from assms obtain p where p: "path = Some p" "p \<noteq> []" "path_exists fs (Path p)"
    by (auto simp: clean_latex_def split: option.splits if_splits)
  let ?exts = "case exts of None \<Rightarrow> DEFAULT_CLEANUP_EXTENSIONS | Some es \<Rightarrow> remdups es"
  obtain fs1 b r1 where pb: "prepare_backup fs stamp (Path p) (initial_result dry recur) cb dry = (fs1, b, r1)"
    by (cases "prepare_backup fs stamp (Path p) (initial_result dry recur) cb dry") auto
  note t1 = prepare_backup_tidy [OF pb]
  show ?thesis
  proof (cases "clean_target fs1 (Path p) ?exts r1 b recur")
    case (Inl a)
    then obtain e r2 where a: "a = (e, r2)" by (cases a)
    from clean_target_Inl [OF Inl [unfolded a]] have r2: "r2 = r1\<lparr>directory_path := Some (Path p)\<rparr>" by simp
    from assms p pb Inl a have "fs' = fs1" "r = r2\<lparr>error_message := Some (''Cleanup failed: '' @ str_os_error e)\<rparr>"
      by (auto simp: clean_latex_def Let_def)
    with r2 t1 show ?thesis by (auto simp: tidy_def)
  next
    case (Inr a)
    then obtain fs2 r2 where a: "a = (fs2, r2)" by (cases a)
    from clean_target_tidy [OF Inr [unfolded a]] t1
    have t2: "tidy fs2 r2" "dry_run r2 = dry" "sealed fs2 = sealed fs" by auto
    from assms p pb Inr a have "fs' = fs2"
      "r = r2\<lparr>backup_created := (if b \<noteq> None \<and> cleaned_files r2 \<noteq> [] then True else backup_created r2), success := True\<rparr>"
      by (auto simp: clean_latex_def Let_def)
    with t2 show ?thesis by (auto simp: tidy_def)
  qed
qed


lemma mkdir_kind:
  assumes "mkdir fs d = Inr fs1" "kind_of fs q \<noteq> None"
  shows "kind_of fs1 q = kind_of fs q"
  using assms
  by (auto simp: mkdir_def kind_of_def map_of_append split: option.splits kind.splits if_splits)

lemma mkdir_frame:
  assumes "mkdir fs d = Inr fs1"
  shows "no_list fs1 = no_list fs" "sealed fs1 = sealed fs"
  using assms by (auto simp: mkdir_def split: option.splits kind.splits if_splits)

lemma prepare_backup_target:
  assumes "prepare_backup fs stamp p r cb dry = (fs1, b, r1)" "path_exists fs p"
  shows "is_file fs1 p = is_file fs p" "no_list fs1 = no_list fs"
  using assms mkdir_kind [of fs _ _ p] mkdir_frame(1)
  by (auto simp: prepare_backup_def create_backup_directory_def Let_def path_exists_def is_file_def
      split: if_splits sum.splits)

lemma clean_target_returns:
  assumes "is_file fs p \<or> p \<notin> set (no_list fs)"
  shows "\<exists>fs' r'. clean_target fs p exts r b recur = Inr (fs', r')"
proof (cases "clean_target fs p exts r b recur")
  case (Inl a)
  then obtain e r' where "a = (e, r')" by (cases a)
  with Inl clean_target_Inl [of fs p exts r b recur e r'] assms show ?thesis by auto
next
  case (Inr a)
  then show ?thesis by (cases a) auto
qed

lemma clean_latex_success:
  assumes "p \<noteq> []" "path_exists fs (Path p)"
    and "is_file fs (Path p) \<or> Path p \<notin> set (no_list fs)"
  shows "\<exists>fs' r. clean_latex fs stamp (Some p) exts dry recur cb = (fs', Inr r) \<and> success r
          \<and> (\<forall>fs1 b r1. prepare_backup fs stamp (Path p) (initial_result dry recur) cb dry = (fs1, b, r1)
                \<longrightarrow> error_message r = error_message r1 \<and> backup_directory r = backup_directory r1
                    \<and> (b = None \<longrightarrow> backup_created r = backup_created r1))"
proof -
  let ?exts = "case exts of None \<Rightarrow> DEFAULT_CLEANUP_EXTENSIONS | Some es \<Rightarrow> remdups es"
  obtain fs1 b r1 where pb: "prepare_backup fs stamp (Path p) (initial_result dry recur) cb dry = (fs1, b, r1)"
    by (cases "prepare_backup fs stamp (Path p) (initial_result dry recur) cb dry") auto
  from prepare_backup_target [OF pb assms(2)] assms(3)
  have "is_file fs1 (Path p) \<or> Path p \<notin> set (no_list fs1)" by simp
  from clean_target_returns [OF this] obtain fs2 r2
    where ct: "clean_target fs1 (Path p) ?exts r1 b recur = Inr (fs2, r2)" by blast
  from clean_target_tidy [OF ct] prepare_backup_tidy [OF pb]
  have keep: "error_message r2 = error_message r1" "backup_directory r2 = backup_directory r1"
    "backup_created r2 = backup_created r1" by auto
  from assms(1,2) pb ct keep show ?thesis
    by (simp add: clean_latex_def Let_def)
qed

subsection \<open>Failures of single files\<close>

text \<open>
  Claim C7: in a run that is not a dry run, on a target that exists and whose candidates
  can be found (the target is a file, or a directory that can be listed), \<open>clean_latex\<close>
  raises nothing and returns a result with \<open>success = True\<close>, whatever files cannot be
  removed; and no file that cannot be removed is in \<open>cleaned_files\<close>.
\<close>

theorem clean_latex_swallows_deletion_failures:
  assumes "p \<noteq> []" "path_exists fs (Path p)"
    and "is_file fs (Path p) \<or> Path p \<notin> set (no_list fs)"
  shows "\<exists>fs' r. clean_latex fs stamp (Some p) exts False recur cb = (fs', Inr r)
           \<and> success r \<and> set (cleaned_files r) \<inter> set (sealed fs) = {}"
proof -
  from clean_latex_success [OF assms, of stamp exts False recur cb]
  obtain fs' r where run: "clean_latex fs stamp (Some p) exts False recur cb = (fs', Inr r)"
    "success r"
    by blast
  from clean_latex_tidy [OF run(1)] have "set (cleaned_files r) \<inter> set (sealed fs) = {}"
    by (auto simp: tidy_def)
  with run show ?thesis by blast
qed

theorem clean_latex_swallows_deletion_failures_witness:
  "(\<exists>fs' r. clean_latex project_fs ''20240101_120000'' (Some ''proj'') None False False False
              = (fs', Inr r)
            \<and> success r \<and> set (cleaned_files r) \<inter> set (sealed project_fs) = {})
   \<and> sealed project_fs = [[''proj'', ''paper.log'']]
   \<and> is_file project_fs [''proj'', ''paper.log'']
   \<and> suffix_of [''proj'', ''paper.log''] \<in> set DEFAULT_CLEANUP_EXTENSIONS"
proof -
  have h: "''proj'' \<noteq> []" "path_exists project_fs (Path ''proj'')"
    "is_file project_fs (Path ''proj'') \<or> Path ''proj'' \<notin> set (no_list project_fs)"
    by code_simp+
  have more: "sealed project_fs = [[''proj'', ''paper.log'']]"
    "is_file project_fs [''proj'', ''paper.log'']"
    "suffix_of [''proj'', ''paper.log''] \<in> set DEFAULT_CLEANUP_EXTENSIONS"
    by code_simp+
  from clean_latex_swallows_deletion_failures [OF h, of "''20240101_120000''" None False False] more
  show ?thesis by blast
qed

text \<open>
  Claim C9: when a backup is asked for in a run that is not a dry run and the backup
  directory cannot be made, the run goes on without it: the result has \<open>success = True\<close>
  and an \<open>error_message\<close> that is not \<open>None\<close>, the warning about the backup. So
  \<open>success = True\<close> does not say that \<open>error_message\<close> is absent.
\<close>

theorem clean_latex_success_with_warning:
  assumes "p \<noteq> []" "path_exists fs (Path p)"
    and "is_file fs (Path p) \<or> Path p \<notin> set (no_list fs)"
    and "create_backup_directory fs stamp (Path p) = Inl e"
  shows "\<exists>fs' r. clean_latex fs stamp (Some p) exts False recur True = (fs', Inr r)
           \<and> success r
           \<and> error_message r = Some (''Warning: Backup creation failed: '' @ str_os_error e
                                        @ ''. Continuing without backup.'')
           \<and> backup_directory r = None \<and> \<not> backup_created r"
proof -
  let ?warn = "''Warning: Backup creation failed: '' @ str_os_error e
                 @ ''. Continuing without backup.''"
  have pb: "prepare_backup fs stamp (Path p) (initial_result False recur) True False
            = (fs, None, (initial_result False recur)\<lparr>error_message := Some ?warn\<rparr>)"
    using assms(4) by (simp add: prepare_backup_def)
  from clean_latex_success [OF assms(1-3), of stamp exts False recur True] pb
  show ?thesis by (auto simp: initial_result_def)
qed

theorem clean_latex_success_with_warning_witness:
  "\<exists>fs' r. clean_latex locked_fs ''20240101_120000'' (Some ''proj'') None False False True
             = (fs', Inr r)
           \<and> success r
           \<and> error_message r
               = Some (''Warning: Backup creation failed: ''
                         @ ''Permission denied: backup_proj_20240101_120000''
                         @ ''. Continuing without backup.'')
           \<and> backup_directory r = None \<and> \<not> backup_created r
           \<and> cleaned_files r = [[''proj'', ''paper.aux'']]"
proof -
  have h: "''proj'' \<noteq> []" "path_exists locked_fs (Path ''proj'')"
    "is_file locked_fs (Path ''proj'') \<or> Path ''proj'' \<notin> set (no_list locked_fs)"
    "create_backup_directory locked_fs ''20240101_120000'' (Path ''proj'')
       = Inl (PermissionDenied [''backup_proj_20240101_120000''])"
    by code_simp+
  have msg: "str_os_error (PermissionDenied [''backup_proj_20240101_120000''])
             = ''Permission denied: backup_proj_20240101_120000''"
    by code_simp
  have files: "cleaned_files (projr (snd (clean_latex locked_fs ''20240101_120000'' (Some ''proj'')
                 None False False True))) = [[''proj'', ''paper.aux'']]"
    by code_simp
  from clean_latex_success_with_warning [OF h, of None False] msg files
  show ?thesis by auto
qed

subsection \<open>The counter and the list\<close>

text \<open>
  Claim C10: in every result that \<open>clean_latex\<close> returns, \<open>cleaned_files_count\<close> is the
  length of \<open>cleaned_files\<close>; in a dry run both stay at zero and empty.
\<close>

theorem cleaned_files_count_is_length:
  assumes "clean_latex fs stamp path exts dry recur cb = (fs', Inr r)"
  shows "cleaned_files_count r = int (length (cleaned_files r))
         \<and> (dry \<longrightarrow> cleaned_files r = [] \<and> cleaned_files_count r = 0)"
  using clean_latex_tidy [OF assms] by (auto simp: tidy_def)

theorem cleaned_files_count_is_length_witness:
  "cleaned_files_count (projr (snd (clean_latex project_fs ''20240101_120000''
       (Some ''proj/paper.tex'') (Some [''.aux'', ''.log'', ''.pdf'']) False False False))) = 2
   \<and> cleaned_files (projr (snd (clean_latex project_fs ''20240101_120000''
       (Some ''proj/paper.tex'') (Some [''.aux'', ''.log'', ''.pdf'']) False False False)))
     = [[''proj'', ''paper.aux''], [''proj'', ''paper.pdf'']]
   \<and> cleaned_files_count (projr (snd (clean_latex project_fs ''20240101_120000''
       (Some ''proj'') None True False False))) = 0"
proof -
  let ?run = "clean_latex project_fs ''20240101_120000'' (Some ''proj/paper.tex'')
                (Some [''.aux'', ''.log'', ''.pdf'']) False False False"
  let ?dry = "clean_latex project_fs ''20240101_120000'' (Some ''proj'') None True False False"
  have ret: "?run = (fst ?run, Inr (projr (snd ?run)))" "?dry = (fst ?dry, Inr (projr (snd ?dry)))"
    by code_simp+
  have files: "cleaned_files (projr (snd ?run)) = [[''proj'', ''paper.aux''], [''proj'', ''paper.pdf'']]"
    by code_simp
  from cleaned_files_count_is_length [OF ret(1)] files
  have a: "cleaned_files_count (projr (snd ?run)) = 2" by simp
  from cleaned_files_count_is_length [OF ret(2)]
  have b: "cleaned_files_count (projr (snd ?dry)) = 0" by simp
  from a b files show ?thesis by simp
qed

subsection \<open>Protected extensions\<close>

text \<open>
  The directory mode keeps the protected extensions out of both lists, and no protected
  extension counts as auxiliary.
\<close>

lemma process_file_lists:
  assumes "process_file_for_cleanup fs r b f = (fs', r')"
  shows "set (cleaned_files r') \<union> set (would_clean_files r')
         \<subseteq> set (cleaned_files r) \<union> set (would_clean_files r) \<union> {f}"
  using process_file_cases [OF assms] by auto

lemma process_files_lists:
  assumes "process_files fs r b cs = (fs', r')"
  shows "set (cleaned_files r') \<union> set (would_clean_files r')
         \<subseteq> set (cleaned_files r) \<union> set (would_clean_files r) \<union> set cs"
  using assms
proof (induction cs arbitrary: fs r)
  case Nil
  then show ?case by simp
next
  case (Cons c cs)
  obtain fs1 r1 where step: "process_file_for_cleanup fs r b c = (fs1, r1)"
    by (cases "process_file_for_cleanup fs r b c")
  with Cons.prems have rest: "process_files fs1 r1 b cs = (fs', r')" by simp
  from process_file_lists [OF step] Cons.IH [OF rest] show ?case by auto
qed

lemma find_auxiliary_files_protects:
  assumes "find_auxiliary_files fs d recur exts = Inr cs" "f \<in> set cs"
  shows "suffix_of f \<notin> set PROTECTED_EXTENSIONS"
  using assms by (auto simp: find_auxiliary_files_def Let_def split: sum.splits)

lemma directory_mode_protects:
  assumes "clean_latex fs stamp (Some p) exts dry recur cb = (fs', Inr r)"
    and "\<not> is_file fs (Path p)"
    and "f \<in> set (cleaned_files r) \<union> set (would_clean_files r)"
  shows "suffix_of f \<notin> set PROTECTED_EXTENSIONS"
proof -
  from assms(1) have p: "p \<noteq> []" "path_exists fs (Path p)"
    by (auto simp: clean_latex_def split: if_splits)
  let ?exts = "case exts of None \<Rightarrow> DEFAULT_CLEANUP_EXTENSIONS | Some es \<Rightarrow> remdups es"
  obtain fs1 b r1 where pb: "prepare_backup fs stamp (Path p) (initial_result dry recur) cb dry = (fs1, b, r1)"
    by (cases "prepare_backup fs stamp (Path p) (initial_result dry recur) cb dry") auto
  from prepare_backup_target [OF pb p(2)] assms(2) have nf: "\<not> is_file fs1 (Path p)" by simp
  from prepare_backup_tidy [OF pb] have empty: "cleaned_files r1 = []" by simp
  from pb have would: "would_clean_files r1 = []"
    by (auto simp: prepare_backup_def initial_result_def split: if_splits sum.splits)
  show ?thesis
  proof (cases "clean_target fs1 (Path p) ?exts r1 b recur")
    case (Inl a)
    then obtain e r2 where a: "a = (e, r2)" by (cases a)
    from clean_target_Inl [OF Inl [unfolded a]] have "r2 = r1\<lparr>directory_path := Some (Path p)\<rparr>" by simp
    with assms(1) p pb Inl a empty would
    have "cleaned_files r = []" "would_clean_files r = []"
      by (auto simp: clean_latex_def Let_def)
    with assms(3) show ?thesis by simp
  next
    case (Inr a)
    then obtain fs2 r2 where a: "a = (fs2, r2)" by (cases a)
    from Inr a nf obtain cs
      where cs: "find_auxiliary_files fs1 (Path p) recur (Some ?exts) = Inr cs"
        and run: "process_files fs1 (r1\<lparr>directory_path := Some (Path p)\<rparr>) b cs = (fs2, r2)"
      by (auto simp: clean_target_def clean_directory_auxiliaries_def Let_def split: sum.splits)
    from process_files_lists [OF run] empty would
    have sub: "set (cleaned_files r2) \<union> set (would_clean_files r2) \<subseteq> set cs" by simp
    from assms(1) p pb Inr a
    have "cleaned_files r = cleaned_files r2" "would_clean_files r = would_clean_files r2"
      by (auto simp: clean_latex_def Let_def)
    with sub assms(3) have "f \<in> set cs" by auto
    from find_auxiliary_files_protects [OF cs this] show ?thesis .
  qed
qed

lemma never_auxiliary: "suffix_of f \<in> set PROTECTED_EXTENSIONS \<Longrightarrow> \<not> is_auxiliary_file f"
  by (simp add: is_auxiliary_file_def)

text \<open>
  Claim C1 says that a file with a protected extension is never removed and never listed,
  also when its extension is asked for, in all three modes. Only the directory mode
  filters with \<open>PROTECTED_EXTENSIONS\<close> (in \<open>find_auxiliary_files\<close>); the two file modes
  test the asked-for extensions alone. With \<open>extensions = [".pdf"]\<close>, cleaning
  \<open>proj/paper.tex\<close> removes \<open>proj/paper.pdf\<close>, cleaning \<open>proj/paper.pdf\<close> itself removes
  it, and a dry run lists it in \<open>would_clean_files\<close>.
\<close>

theorem protected_pdf_removed:
  "suffix_of [''proj'', ''paper.pdf''] \<in> set PROTECTED_EXTENSIONS
   \<and> cleaned_files (projr (snd (clean_latex project_fs ''20240101_120000''
        (Some ''proj/paper.tex'') (Some [''.pdf'']) False False False)))
      = [[''proj'', ''paper.pdf'']]
   \<and> \<not> path_exists (fst (clean_latex project_fs ''20240101_120000''
        (Some ''proj/paper.tex'') (Some [''.pdf'']) False False False)) [''proj'', ''paper.pdf'']
   \<and> cleaned_files (projr (snd (clean_latex project_fs ''20240101_120000''
        (Some ''proj/paper.pdf'') (Some [''.pdf'']) False False False)))
      = [[''proj'', ''paper.pdf'']]
   \<and> would_clean_files (projr (snd (clean_latex project_fs ''20240101_120000''
        (Some ''proj/paper.tex'') (Some [''.pdf'']) True False False)))
      = [[''proj'', ''paper.pdf'']]"
  by code_simp

subsection \<open>A second run\<close>

lemma shrinks_refl: "shrinks fs fs"
  by (simp add: shrinks_def)

lemma shrinks_trans: "shrinks a b \<Longrightarrow> shrinks b c \<Longrightarrow> shrinks a c"
  unfolding shrinks_def by (metis (no_types, lifting) subset_trans)

lemma shrinks_is_file: "shrinks fs fs' \<Longrightarrow> is_file fs' q \<Longrightarrow> is_file fs q"
  unfolding shrinks_def is_file_def by (metis option.distinct(1))

lemma shrinks_still_file:
  assumes "shrinks fs fs'" "is_file fs p" "path_exists fs' p"
  shows "is_file fs' p"
proof -
  from assms(1) have "kind_of fs' p = kind_of fs p \<or> (kind_of fs p = Some File \<and> kind_of fs' p = None)"
    by (simp add: shrinks_def)
  with assms(2,3) show ?thesis by (auto simp: is_file_def path_exists_def)
qed

lemma shrinks_stuck:
  "shrinks fs fs' \<Longrightarrow> is_file fs q \<longrightarrow> q \<in> set (sealed fs)
   \<Longrightarrow> is_file fs' q \<longrightarrow> q \<in> set (sealed fs')"
  using shrinks_is_file by (auto simp: shrinks_def)

lemma map_of_filter_key:
  "map_of (filter (\<lambda>(a, k). a \<noteq> p) xs) q = (if q = p then None else map_of xs q)"
  by (induction xs) auto

lemma unlink_shrinks:
  assumes "unlink fs p = Inr fs'"
  shows "shrinks fs fs'" "\<not> is_file fs' p"
proof -
  from unlink_Inr [OF assms]
  have f: "is_file fs p" and fs': "fs' = fs\<lparr>nodes := filter (\<lambda>(q, k). q \<noteq> p) (nodes fs)\<rparr>"
    by auto
  from f have na: "\<not> is_anchor p" by (auto simp: is_file_def kind_of_def split: if_splits)
  have kind: "kind_of fs' q = (if q = p then None else kind_of fs q)" for q
    using na by (auto simp: fs' kind_of_def map_of_filter_key)
  from f kind show "shrinks fs fs'"
    by (auto simp: shrinks_def is_file_def fs')
  from kind show "\<not> is_file fs' p" by (simp add: is_file_def)
qed

lemma process_file_stuck:
  assumes "\<not> dry_run r" "is_file fs f \<longrightarrow> f \<in> set (sealed fs)"
  shows "process_file_for_cleanup fs r None f = (fs, r)"
  using assms
  by (auto simp: process_file_for_cleanup_def unlink_def is_file_def split: option.splits kind.splits)

lemma process_file_after:
  assumes "\<not> dry_run r" "process_file_for_cleanup fs r None f = (fs', r')"
  shows "shrinks fs fs' \<and> (is_file fs' f \<longrightarrow> f \<in> set (sealed fs')) \<and> dry_run r' = dry_run r"
proof (cases "unlink fs f")
  case (Inl e)
  with assms have same: "fs' = fs" "r' = r" by (auto simp: process_file_for_cleanup_def)
  from Inl have "is_file fs f \<longrightarrow> f \<in> set (sealed fs)"
    by (auto simp: unlink_def is_file_def split: option.splits kind.splits if_splits)
  with same show ?thesis by (simp add: shrinks_refl)
next
  case (Inr fs2)
  with assms have "fs' = fs2" "dry_run r' = dry_run r" by (auto simp: process_file_for_cleanup_def)
  with unlink_shrinks [OF Inr] show ?thesis by simp
qed

lemma process_files_stuck:
  assumes "\<not> dry_run r" "\<forall>c \<in> set cs. is_file fs c \<longrightarrow> c \<in> set (sealed fs)"
  shows "process_files fs r None cs = (fs, r)"
  using assms by (induction cs) (auto simp: process_file_stuck)

lemma process_files_after:
  assumes "\<not> dry_run r" "process_files fs r None cs = (fs', r')"
  shows "shrinks fs fs' \<and> (\<forall>c \<in> set cs. is_file fs' c \<longrightarrow> c \<in> set (sealed fs'))"
  using assms
proof (induction cs arbitrary: fs r)
  case Nil
  then show ?case by (simp add: shrinks_refl)
next
  case (Cons c cs)
  obtain fs1 r1 where step: "process_file_for_cleanup fs r None c = (fs1, r1)"
    by (cases "process_file_for_cleanup fs r None c")
  with Cons.prems have rest: "process_files fs1 r1 None cs = (fs', r')" by simp
  from process_file_after [OF Cons.prems(1) step]
  have a: "shrinks fs fs1" "is_file fs1 c \<longrightarrow> c \<in> set (sealed fs1)" "\<not> dry_run r1"
    using Cons.prems(1) by auto
  from Cons.IH [OF a(3) rest]
  have b: "shrinks fs1 fs'" "\<forall>c \<in> set cs. is_file fs' c \<longrightarrow> c \<in> set (sealed fs')" by auto
  from shrinks_stuck [OF b(1) a(2)] shrinks_trans [OF a(1) b(1)] b(2)
  show ?case by simp
qed

lemma clean_tex_stuck:
  assumes "\<not> dry_run r"
    "\<forall>ext \<in> set exts. is_file fs (pjoin (parent t) (stem t @ ext))
        \<longrightarrow> pjoin (parent t) (stem t @ ext) \<in> set (sealed fs)"
  shows "clean_tex_file_auxiliaries fs t exts r None = (fs, r)"
  using assms by (induction exts) (auto simp: process_file_stuck Let_def)

lemma clean_tex_after:
  assumes "\<not> dry_run r" "clean_tex_file_auxiliaries fs t exts r None = (fs', r')"
  shows "shrinks fs fs'
         \<and> (\<forall>ext \<in> set exts. is_file fs' (pjoin (parent t) (stem t @ ext))
               \<longrightarrow> pjoin (parent t) (stem t @ ext) \<in> set (sealed fs'))"
  using assms
proof (induction exts arbitrary: fs r)
  case Nil
  then show ?case by (simp add: shrinks_refl)
next
  case (Cons ext exts)
  let ?aux = "pjoin (parent t) (stem t @ ext)"
  show ?case
  proof (cases "path_exists fs ?aux \<and> is_file fs ?aux")
    case True
    obtain fs1 r1 where step: "process_file_for_cleanup fs r None ?aux = (fs1, r1)"
      by (cases "process_file_for_cleanup fs r None ?aux")
    with True Cons.prems have rest: "clean_tex_file_auxiliaries fs1 t exts r1 None = (fs', r')"
      by (simp add: Let_def)
    from process_file_after [OF Cons.prems(1) step]
    have a: "shrinks fs fs1" "is_file fs1 ?aux \<longrightarrow> ?aux \<in> set (sealed fs1)" "\<not> dry_run r1"
      using Cons.prems(1) by auto
    from Cons.IH [OF a(3) rest]
    have b: "shrinks fs1 fs'"
      "\<forall>ext \<in> set exts. is_file fs' (pjoin (parent t) (stem t @ ext))
          \<longrightarrow> pjoin (parent t) (stem t @ ext) \<in> set (sealed fs')" by auto
    from shrinks_stuck [OF b(1) a(2)] shrinks_trans [OF a(1) b(1)] b(2)
    show ?thesis by simp
  next
    case False
    with Cons.prems have rest: "clean_tex_file_auxiliaries fs t exts r None = (fs', r')"
      by (auto simp: Let_def)
    from Cons.IH [OF Cons.prems(1) rest]
    have b: "shrinks fs fs'"
      "\<forall>ext \<in> set exts. is_file fs' (pjoin (parent t) (stem t @ ext))
          \<longrightarrow> pjoin (parent t) (stem t @ ext) \<in> set (sealed fs')" by auto
    from False have "\<not> is_file fs ?aux" by (auto simp: path_exists_def is_file_def)
    with shrinks_is_file [OF b(1)] have "\<not> is_file fs' ?aux" by blast
    with b show ?thesis by simp
  qed
qed

lemma find_auxiliary_files_shrinks:
  assumes "shrinks fs fs'" "find_auxiliary_files fs d recur (Some exts) = Inr cs"
  shows "\<exists>cs'. find_auxiliary_files fs' d recur (Some exts) = Inr cs' \<and> set cs' \<subseteq> set cs"
proof -
  from assms(2) have ok: "d \<notin> set (no_list fs)"
    and cs: "cs = filter (\<lambda>f. is_file fs f \<and> suffix_of f \<in> set exts
                              \<and> suffix_of f \<notin> set PROTECTED_EXTENSIONS)
                   (filter (inside recur d) (map fst (nodes fs)))"
    by (auto simp: find_auxiliary_files_def glob_def split: if_splits)
  from assms(1) have "d \<notin> set (no_list fs')" "set (map fst (nodes fs')) \<subseteq> set (map fst (nodes fs))"
    using ok by (auto simp: shrinks_def)
  with shrinks_is_file [OF assms(1)] cs show ?thesis
    by (auto simp: find_auxiliary_files_def glob_def)
qed

lemma clean_target_again:
  assumes "\<not> dry_run r" "clean_target fs p exts r None recur = Inr (fs1, r1)"
    and "path_exists fs1 p" "\<not> dry_run r0"
  shows "\<exists>r2. clean_target fs1 p exts r0 None recur = Inr (fs1, r2)
           \<and> cleaned_files r2 = cleaned_files r0
           \<and> cleaned_files_count r2 = cleaned_files_count r0"
proof (cases "is_file fs p")
  case True
  let ?r = "r\<lparr>tex_file_path := Some p, directory_path := Some (parent p)\<rparr>"
  let ?q = "r0\<lparr>tex_file_path := Some p, directory_path := Some (parent p)\<rparr>"
  have nd: "\<not> dry_run ?r" "\<not> dry_run ?q" using assms(1,4) by simp_all
  show ?thesis
  proof (cases "suffix_of p = ''.tex''")
    case tex: True
    with True assms(2) have run: "clean_tex_file_auxiliaries fs p exts ?r None = (fs1, r1)"
      by (simp add: clean_target_def Let_def)
    from clean_tex_after [OF nd(1) run]
    have sh: "shrinks fs fs1" and stuck: "\<forall>ext \<in> set exts. is_file fs1 (pjoin (parent p) (stem p @ ext))
               \<longrightarrow> pjoin (parent p) (stem p @ ext) \<in> set (sealed fs1)" by auto
    from shrinks_still_file [OF sh True assms(3)] have isf: "is_file fs1 p" .
    from clean_tex_stuck [OF nd(2) stuck] isf tex show ?thesis
      by (simp add: clean_target_def Let_def)
  next
    case False
    show ?thesis
    proof (cases "suffix_of p \<in> set exts")
      case inx: True
      with True False assms(2) have run: "process_file_for_cleanup fs ?r None p = (fs1, r1)"
        by (simp add: clean_target_def clean_single_file_def Let_def)
      from process_file_after [OF nd(1) run]
      have sh: "shrinks fs fs1" and stuck: "is_file fs1 p \<longrightarrow> p \<in> set (sealed fs1)" by auto
      from shrinks_still_file [OF sh True assms(3)] have isf: "is_file fs1 p" .
      from process_file_stuck [OF nd(2) stuck] isf False inx show ?thesis
        by (simp add: clean_target_def clean_single_file_def Let_def)
    next
      case out: False
      with True False assms(2) have "fs1 = fs"
        by (simp add: clean_target_def clean_single_file_def Let_def)
      with True False out show ?thesis
        by (simp add: clean_target_def clean_single_file_def Let_def)
    qed
  qed
next
  case False
  let ?r = "r\<lparr>directory_path := Some p\<rparr>"
  let ?q = "r0\<lparr>directory_path := Some p\<rparr>"
  have nd: "\<not> dry_run ?r" "\<not> dry_run ?q" using assms(1,4) by simp_all
  from False assms(2) obtain cs where cs: "find_auxiliary_files fs p recur (Some exts) = Inr cs"
    and run: "process_files fs ?r None cs = (fs1, r1)"
    by (auto simp: clean_target_def clean_directory_auxiliaries_def Let_def split: sum.splits)
  from process_files_after [OF nd(1) run]
  have sh: "shrinks fs fs1" and stuck: "\<forall>c \<in> set cs. is_file fs1 c \<longrightarrow> c \<in> set (sealed fs1)"
    by auto
  from shrinks_is_file [OF sh] False have nf: "\<not> is_file fs1 p" by blast
  from find_auxiliary_files_shrinks [OF sh cs] obtain cs'
    where cs': "find_auxiliary_files fs1 p recur (Some exts) = Inr cs'" "set cs' \<subseteq> set cs"
    by blast
  with stuck have "\<forall>c \<in> set cs'. is_file fs1 c \<longrightarrow> c \<in> set (sealed fs1)" by blast
  from process_files_stuck [OF nd(2) this] nf cs'(1) show ?thesis
    by (simp add: clean_target_def clean_directory_auxiliaries_def Let_def)
qed


lemma process_files_dry:
  "dry_run r \<Longrightarrow> process_files fs r b cs = (fs', r') \<Longrightarrow> fs' = fs \<and> dry_run r'"
proof (induction cs arbitrary: r)
  case Nil
  then show ?case by simp
next
  case (Cons c cs)
  from Cons.prems have "process_files fs (r\<lparr>would_clean_files := would_clean_files r @ [c]\<rparr>) b cs = (fs', r')"
    by (simp add: process_file_dry)
  with Cons.IH [of "r\<lparr>would_clean_files := would_clean_files r @ [c]\<rparr>"] Cons.prems(1)
  show ?case by simp
qed

lemma clean_tex_dry:
  "dry_run r \<Longrightarrow> clean_tex_file_auxiliaries fs t exts r b = (fs', r') \<Longrightarrow> fs' = fs"
proof (induction exts arbitrary: r)
  case Nil
  then show ?case by simp
next
  case (Cons ext exts)
  let ?aux = "pjoin (parent t) (stem t @ ext)"
  show ?case
  proof (cases "path_exists fs ?aux \<and> is_file fs ?aux")
    case True
    with Cons.prems
    have "clean_tex_file_auxiliaries fs t exts (r\<lparr>would_clean_files := would_clean_files r @ [?aux]\<rparr>) b
          = (fs', r')"
      by (simp add: process_file_dry Let_def)
    with Cons.IH [of "r\<lparr>would_clean_files := would_clean_files r @ [?aux]\<rparr>"] Cons.prems(1)
    show ?thesis by simp
  next
    case False
    with Cons.prems have "clean_tex_file_auxiliaries fs t exts r b = (fs', r')"
      by (auto simp: Let_def)
    with Cons.IH [of r] Cons.prems(1) show ?thesis by simp
  qed
qed

lemma clean_target_dry:
  assumes "dry_run r" "clean_target fs p exts r b recur = Inr (fs', r')"
  shows "fs' = fs"
proof (cases "is_file fs p")
  case True
  let ?r = "r\<lparr>tex_file_path := Some p, directory_path := Some (parent p)\<rparr>"
  have d: "dry_run ?r" using assms(1) by simp
  show ?thesis
  proof (cases "suffix_of p = ''.tex''")
    case tex: True
    with True assms(2) have "clean_tex_file_auxiliaries fs p exts ?r b = (fs', r')"
      by (simp add: clean_target_def Let_def)
    from clean_tex_dry [OF d this] show ?thesis .
  next
    case False
    with True assms(2) have "clean_single_file fs p exts ?r b = (fs', r')"
      by (simp add: clean_target_def Let_def)
    with d show ?thesis
      by (auto simp: clean_single_file_def process_file_dry split: if_splits)
  qed
next
  case False
  let ?r = "r\<lparr>directory_path := Some p\<rparr>"
  have d: "dry_run ?r" using assms(1) by simp
  from False assms(2) obtain cs where "process_files fs ?r b cs = (fs', r')"
    by (auto simp: clean_target_def clean_directory_auxiliaries_def Let_def split: sum.splits)
  from process_files_dry [OF d this] show ?thesis by simp
qed

lemma prepare_backup_none:
  "dry \<or> \<not> cb \<Longrightarrow> prepare_backup fs stamp p r cb dry = (fs, None, r)"
  by (auto simp: prepare_backup_def)

text \<open>
  Claim C8, as stated: a second run on the same target with the same options returns a
  result with no file removed. When the target is a single auxiliary file, the first run
  removes the target itself and the second run raises \<open>CleanupError\<close> instead of
  returning a result. And with a backup of the current directory, cleaned recursively, the
  backup directory lies inside the target: the second run removes the copy that the first
  run put there.
\<close>

theorem second_run_counterexample:
  "snd (clean_latex
          (fst (clean_latex project_fs ''20240101_120000'' (Some ''proj/paper.aux'') None
                  False False False))
          ''20240101_120001'' (Some ''proj/paper.aux'') None False False False)
     = Inl (CleanupError ''Path not found: proj/paper.aux'')
   \<and> cleaned_files (projr (snd (clean_latex
          (fst (clean_latex cwd_fs ''20240101_120000'' (Some ''.'') None False True True))
          ''20240101_120001'' (Some ''.'') None False True True)))
     = [[''backup__20240101_120000'', ''a.aux'']]"
  by code_simp

text \<open>
  Claim C8, amended: when no backup directory is made (\<open>create_backup\<close> is off, or the run
  is a dry run) and the files that cannot be removed are the same in both runs, a second
  run of \<open>clean_latex\<close> on the same target with the same options changes nothing in the
  file system; it returns a result when the target still exists, and that result has an
  empty \<open>cleaned_files\<close> and \<open>cleaned_files_count = 0\<close>; when the first run has removed the
  target, it raises \<open>CleanupError\<close> ("Path not found").
\<close>

theorem clean_latex_second_run_removes_nothing:
  assumes "dry \<or> \<not> cb"
    and "clean_latex fs stamp path exts dry recur cb = (fs1, res1)"
    and "clean_latex fs1 stamp2 path exts dry recur cb = (fs2, res2)"
  shows "fs2 = fs1
         \<and> (\<forall>r2. res2 = Inr r2 \<longrightarrow> cleaned_files r2 = [] \<and> cleaned_files_count r2 = 0)
         \<and> (\<forall>p. path = Some p \<and> p \<noteq> [] \<and> path_exists fs1 (Path p) \<longrightarrow> (\<exists>r2. res2 = Inr r2))
         \<and> (\<forall>p. path = Some p \<and> p \<noteq> [] \<and> \<not> path_exists fs1 (Path p)
               \<longrightarrow> res2 = Inl (CleanupError (''Path not found: '' @ p)))"
proof (cases "\<exists>p. path = Some p \<and> p \<noteq> [] \<and> path_exists fs1 (Path p)")
  case False
  with assms(3) have "fs2 = fs1" "\<forall>r2. res2 \<noteq> Inr r2"
    "\<forall>p. path = Some p \<and> p \<noteq> [] \<longrightarrow> res2 = Inl (CleanupError (''Path not found: '' @ p))"
    by (auto simp: clean_latex_def split: option.splits if_splits)
  with False show ?thesis by auto
next
  case True
  then obtain p where p: "path = Some p" "p \<noteq> []" "path_exists fs1 (Path p)" by blast
  let ?exts = "case exts of None \<Rightarrow> DEFAULT_CLEANUP_EXTENSIONS | Some es \<Rightarrow> remdups es"
  let ?init = "initial_result dry recur"
  note pb = prepare_backup_none [OF assms(1)]
  have second: "fs2 = fs1 \<and> (\<exists>r2. res2 = Inr r2 \<and> cleaned_files r2 = [] \<and> cleaned_files_count r2 = 0)"
  proof (cases "clean_target fs1 (Path p) ?exts ?init None recur")
    case (Inl a)
    then obtain e r' where a: "a = (e, r')" by (cases a)
    from clean_target_Inl [OF Inl [unfolded a]] have "r' = ?init\<lparr>directory_path := Some (Path p)\<rparr>"
      by simp
    with assms(3) p pb Inl a show ?thesis
      by (auto simp: clean_latex_def Let_def initial_result_def)
  next
    case (Inr a)
    then obtain fsb rb where a: "a = (fsb, rb)" by (cases a)
    from assms(3) p pb Inr a have run2: "fs2 = fsb" "\<exists>r2. res2 = Inr r2"
      by (auto simp: clean_latex_def Let_def)
    then obtain r2 where r2: "res2 = Inr r2" by blast
    show ?thesis
    proof (cases dry)
      case True
      then have "dry_run ?init" by (simp add: initial_result_def)
      from clean_target_dry [OF this Inr [unfolded a]] have "fsb = fs1" .
      moreover from clean_latex_tidy [OF assms(3) [unfolded r2]] True
      have "cleaned_files r2 = []" "cleaned_files_count r2 = 0" by (auto simp: tidy_def)
      ultimately show ?thesis using run2 r2 by simp
    next
      case False
      then have nd: "\<not> dry_run ?init" by (simp add: initial_result_def)
      show ?thesis
      proof (cases "path_exists fs (Path p)")
        case ex: True
        show ?thesis
        proof (cases "clean_target fs (Path p) ?exts ?init None recur")
          case first: (Inl b)
          then obtain e r' where b: "b = (e, r')" by (cases b)
          with assms(2) p ex pb first have "fs1 = fs" by (auto simp: clean_latex_def Let_def)
          with first Inr show ?thesis by simp
        next
          case first: (Inr b)
          then obtain fsa ra where b: "b = (fsa, ra)" by (cases b)
          with assms(2) p ex pb first have "fs1 = fsa" by (auto simp: clean_latex_def Let_def)
          with first b have ct: "clean_target fs (Path p) ?exts ?init None recur = Inr (fs1, ra)"
            by simp
          from clean_target_again [OF nd ct p(3) nd] Inr a
          have "fsb = fs1" "cleaned_files rb = []" "cleaned_files_count rb = 0"
            by (auto simp: initial_result_def)
          with assms(3) p pb Inr a show ?thesis
            by (auto simp: clean_latex_def Let_def)
        qed
      next
        case nex: False
        with assms(2) p have "fs1 = fs" by (auto simp: clean_latex_def)
        with nex p(3) show ?thesis by simp
      qed
    qed
  qed
  with p show ?thesis by auto
qed


theorem clean_latex_second_run_removes_nothing_witness:
  "cleaned_files (projr (snd (clean_latex project_fs ''20240101_120000'' (Some ''proj'') None
       False False False)))
     = [[''proj'', ''paper.aux'']]
   \<and> cleaned_files (projr (snd (clean_latex
        (fst (clean_latex project_fs ''20240101_120000'' (Some ''proj'') None False False False))
        ''20240101_120001'' (Some ''proj'') None False False False))) = []
   \<and> cleaned_files_count (projr (snd (clean_latex
        (fst (clean_latex project_fs ''20240101_120000'' (Some ''proj'') None False False False))
        ''20240101_120001'' (Some ''proj'') None False False False))) = 0
   \<and> is_file (fst (clean_latex project_fs ''20240101_120000'' (Some ''proj'') None
        False False False)) [''proj'', ''paper.log'']"
proof -
  let ?one = "clean_latex project_fs ''20240101_120000'' (Some ''proj'') None False False False"
  let ?two = "clean_latex (fst ?one) ''20240101_120001'' (Some ''proj'') None False False False"
  have nb: "False \<or> \<not> False" by simp
  have one: "?one = (fst ?one, snd ?one)" and two: "?two = (fst ?two, snd ?two)" by simp_all
  have ret: "snd ?two = Inr (projr (snd ?two))" by code_simp
  have first: "cleaned_files (projr (snd ?one)) = [[''proj'', ''paper.aux'']]"
    "is_file (fst ?one) [''proj'', ''paper.log'']"
    by code_simp+
  from clean_latex_second_run_removes_nothing [OF nb one two] ret
  have "cleaned_files (projr (snd ?two)) = []" "cleaned_files_count (projr (snd ?two)) = 0"
    by auto
  with first show ?thesis by simp
qed

end
